theory Spec2Isabelle
  imports Main "HOL-Library.Sublist"
begin

section \<open>Python values\<close>

text \<open>
  A Python \<open>str\<close> is a sequence of Unicode code points; a code point is a natural
  number and \<open>str ''abc''\<close> is the string with the code points of the literal.
\<close>

type_synonym pystr = "nat list"

definition str :: "string \<Rightarrow> pystr" where
  "str s = map of_char s"

text \<open>
  \<open>is_space c\<close> is \<open>str.isspace\<close> on one character, which is also what the pattern
  \<open>\s\<close> matches in a \<open>str\<close> pattern: U+0009..U+000D, U+001C..U+0020, U+0085, U+00A0,
  U+1680, U+2000..U+200A, U+2028, U+2029, U+202F, U+205F, U+3000.
\<close>

definition is_space :: "nat \<Rightarrow> bool" where
  "is_space c \<longleftrightarrow>
     (9 \<le> c \<and> c \<le> 13) \<or> (28 \<le> c \<and> c \<le> 32) \<or> c = 133 \<or> c = 160 \<or>
     c = 5760 \<or> (8192 \<le> c \<and> c \<le> 8202) \<or> c = 8232 \<or> c = 8233 \<or>
     c = 8239 \<or> c = 8287 \<or> c = 12288"

text \<open>\<open>s.strip()\<close>: whitespace removed at both ends.\<close>

definition strip :: "pystr \<Rightarrow> pystr" where
  "strip s = rev (dropWhile is_space (rev (dropWhile is_space s)))"

text \<open>\<open>re.sub(r'\s+', ' ', s)\<close>: every maximal run of whitespace becomes one space.\<close>

fun collapse_ws :: "pystr \<Rightarrow> pystr" where
  "collapse_ws [] = []"
| "collapse_ws [c] = (if is_space c then [32] else [c])"
| "collapse_ws (c # d # s) =
     (if is_space c then (if is_space d then collapse_ws (d # s) else 32 # collapse_ws (d # s))
      else c # collapse_ws (d # s))"

text \<open>
  The values \<open>json.load\<close> returns. A \<open>dict\<close> is the list of its items in insertion
  order, with distinct keys; \<open>map_of\<close> looks a key up. Every operation below treats an
  \<open>int\<close> and a \<open>float\<close> alike; a \<open>float\<close> is kept as its literal.
\<close>

datatype json =
    JNull
  | JBool bool
  | JNum int
  | JFloat pystr
  | JStr pystr
  | JArr "json list"
  | JObj "(pystr \<times> json) list"

datatype error =
    TypeError
  | KeyError
  | ValueError pystr
  | JSONDecodeError
  | OSError

text \<open>The elements a \<open>for\<close> loop (or \<open>enumerate\<close>) sees: a \<open>dict\<close> yields its keys, a
  \<open>str\<close> its characters; \<open>None\<close>, a \<open>bool\<close> and a number are not iterable.\<close>

fun py_iter :: "json \<Rightarrow> error + json list" where
  "py_iter (JArr xs) = Inr xs"
| "py_iter (JObj kvs) = Inr (map (\<lambda>kv. JStr (fst kv)) kvs)"
| "py_iter (JStr s) = Inr (map (\<lambda>c. JStr [c]) s)"
| "py_iter _ = Inl TypeError"

text \<open>\<open>k in x\<close> for a \<open>str\<close> key \<open>k\<close>: key membership on a \<open>dict\<close>, substring test on a
  \<open>str\<close>, element membership on a \<open>list\<close>, \<open>TypeError\<close> otherwise.\<close>

fun py_in :: "pystr \<Rightarrow> json \<Rightarrow> error + bool" where
  "py_in k (JObj kvs) = Inr (map_of kvs k \<noteq> None)"
| "py_in k (JStr s) = Inr (sublist k s)"
| "py_in k (JArr xs) = Inr (JStr k \<in> set xs)"
| "py_in k _ = Inl TypeError"

text \<open>\<open>x[k]\<close> for a \<open>str\<close> key \<open>k\<close>: only a \<open>dict\<close> can be indexed by a string.\<close>

fun py_getitem :: "json \<Rightarrow> pystr \<Rightarrow> error + json" where
  "py_getitem (JObj kvs) k = (case map_of kvs k of Some v \<Rightarrow> Inr v | None \<Rightarrow> Inl KeyError)"
| "py_getitem _ k = Inl TypeError"

text \<open>\<open>d.get(k, default)\<close> on the items of a \<open>dict\<close>.\<close>

definition dict_get :: "(pystr \<times> json) list \<Rightarrow> pystr \<Rightarrow> json \<Rightarrow> json" where
  "dict_get kvs k dflt = (case map_of kvs k of Some v \<Rightarrow> v | None \<Rightarrow> dflt)"

section \<open>Preprocessor: repairing and loading a scrape file\<close>

text \<open>\<open>s.replace(c, rep)\<close> for a one-character \<open>c\<close>.\<close>

definition replace_char :: "nat \<Rightarrow> pystr \<Rightarrow> pystr \<Rightarrow> pystr" where
  "replace_char c rep s = concat (map (\<lambda>x. if x = c then rep else [x]) s)"

text \<open>\<open>re.sub(r'(?<!\\)/', '\\/', code)\<close>: a slash not preceded by a backslash gets one.
  The first argument is the character before the current position, if any.\<close>

fun escape_slashes :: "nat option \<Rightarrow> pystr \<Rightarrow> pystr" where
  "escape_slashes prev [] = []"
| "escape_slashes prev (c # s) =
     (if c = 47 \<and> prev \<noteq> Some 92 then 92 # 47 # escape_slashes (Some c) s
      else c # escape_slashes (Some c) s)"

definition sanitize_code_block :: "pystr \<Rightarrow> pystr" where
  "sanitize_code_block code =
     (let code = replace_char 92 [92, 92] code;
          code = replace_char 34 [92, 34] code;
          code = replace_char 10 [92, 110] code;
          code = replace_char 13 [92, 114] code;
          code = replace_char 9 [92, 116] code
      in escape_slashes None code)"

text \<open>\<open>split_at pat s\<close>: the text before and after the first occurrence of \<open>pat\<close> in
  \<open>s\<close>, if there is one.\<close>

fun split_at :: "pystr \<Rightarrow> pystr \<Rightarrow> (pystr \<times> pystr) option" where
  "split_at pat [] = (if pat = [] then Some ([], []) else None)"
| "split_at pat (c # s) =
     (if prefix pat (c # s) then Some ([], drop (length pat) (c # s))
      else (case split_at pat s of
              None \<Rightarrow> None
            | Some (before, after) \<Rightarrow> Some (c # before, after)))"

text \<open>\<open>re.sub(r'<code>(.*?)</code>', replace_code_block, content, flags=re.DOTALL)\<close>:
  from the left, each \<open><code>\<close> with a later \<open></code>\<close> has the text up to the first
  such \<open></code>\<close> sanitized. The fuel bounds the number of blocks; the length of the
  content is always enough.\<close>

fun code_blocks_sub :: "nat \<Rightarrow> pystr \<Rightarrow> pystr" where
  "code_blocks_sub 0 s = s"
| "code_blocks_sub (Suc n) s =
     (case split_at (str ''<code>'') s of
        None \<Rightarrow> s
      | Some (before, rest) \<Rightarrow>
          (case split_at (str ''</code>'') rest of
             None \<Rightarrow> s
           | Some (inner, after) \<Rightarrow>
               before @ str ''<code>'' @ sanitize_code_block inner @ str ''</code>''
                 @ code_blocks_sub n after))"

definition process_code_blocks :: "pystr \<Rightarrow> pystr" where
  "process_code_blocks content = code_blocks_sub (length content) content"

text \<open>\<open>re.sub(r'}\s*{', '},{', content)\<close>.\<close>

function missing_commas_sub :: "pystr \<Rightarrow> pystr" where
  "missing_commas_sub [] = []"
| "missing_commas_sub (c # s) =
     (if c = 125 then
        (case dropWhile is_space s of
           [] \<Rightarrow> c # missing_commas_sub s
         | d # r \<Rightarrow> if d = 123 then [125, 44, 123] @ missing_commas_sub r
                   else c # missing_commas_sub s)
      else c # missing_commas_sub s)"
  by pat_completeness auto
termination
proof (relation "measure length")
  fix c :: nat and s d r
  assume "dropWhile is_space s = d # r"
  then have "length r < length (dropWhile is_space s)" by simp
  also have "\<dots> \<le> length s" by (rule length_dropWhile_le)
  finally show "(r, c # s) \<in> measure length" by simp
qed auto

text \<open>\<open>re.sub(r',(\s*[}\]])', r'\1', content)\<close>.\<close>

function trailing_commas_sub :: "pystr \<Rightarrow> pystr" where
  "trailing_commas_sub [] = []"
| "trailing_commas_sub (c # s) =
     (if c = 44 then
        (case dropWhile is_space s of
           [] \<Rightarrow> c # trailing_commas_sub s
         | d # r \<Rightarrow> if d = 125 \<or> d = 93 then takeWhile is_space s @ d # trailing_commas_sub r
                   else c # trailing_commas_sub s)
      else c # trailing_commas_sub s)"
  by pat_completeness auto
termination
proof (relation "measure length")
  fix c :: nat and s d r
  assume "dropWhile is_space s = d # r"
  then have "length r < length (dropWhile is_space s)" by simp
  also have "\<dots> \<le> length s" by (rule length_dropWhile_le)
  finally show "(r, c # s) \<in> measure length" by simp
qed auto

definition fix_json_structure :: "pystr \<Rightarrow> pystr" where
  "fix_json_structure content =
     (let content = dropWhile (\<lambda>c. c = 65279) (strip content);
          content = (if prefix [91] content then content else 91 # content);
          content = (if suffix [93] content then content else content @ [93]);
          content = missing_commas_sub content
      in trailing_commas_sub content)"

text \<open>\<open>preprocess_file\<close> on the text read from the file (the debug copies it writes
  do not change the result).\<close>

definition preprocess_file :: "pystr \<Rightarrow> pystr" where
  "preprocess_file content = fix_json_structure (process_code_blocks content)"

definition validate_json_entry :: "json \<Rightarrow> bool" where
  "validate_json_entry entry =
     (case entry of
        JObj kvs \<Rightarrow>
          (if map_of kvs (str ''question'') = None then False
           else (case map_of kvs (str ''answers'') of
                   Some (JArr vs) \<Rightarrow> True
                 | _ \<Rightarrow> False))
      | _ \<Rightarrow> False)"

text \<open>The validation loop of \<open>load_json_safely\<close>: the entries kept so far and the
  indices of the warnings printed so far.\<close>

fun validate_loop :: "nat \<Rightarrow> json list \<Rightarrow> json list \<times> nat list \<Rightarrow> json list \<times> nat list" where
  "validate_loop i [] acc = acc"
| "validate_loop i (entry # es) (validated_data, warnings) =
     (if validate_json_entry entry
      then validate_loop (Suc i) es (validated_data @ [entry], warnings)
      else validate_loop (Suc i) es (validated_data, warnings @ [i]))"

text \<open>\<open>load_json_safely\<close> on the text of the file; \<open>loads\<close> is \<open>json.loads\<close>
  (\<open>None\<close> when it raises \<open>JSONDecodeError\<close>). It returns the validated entries and
  the indices named in the warnings it printed.\<close>

definition load_json_safely ::
  "(pystr \<Rightarrow> json option) \<Rightarrow> pystr \<Rightarrow> error + (json list \<times> nat list)" where
  "load_json_safely loads text =
     (case loads (preprocess_file text) of
        None \<Rightarrow> Inl JSONDecodeError
      | Some data \<Rightarrow>
          (case py_iter data of
             Inl e \<Rightarrow> Inl e
           | Inr entries \<Rightarrow>
               (case validate_loop 0 entries ([], []) of
                  (validated_data, warnings) \<Rightarrow>
                    if validated_data = []
                    then Inl (ValueError (str ''No valid entries found in the JSON file''))
                    else Inr (validated_data, warnings))))"

section \<open>The libraries the code calls\<close>

text \<open>
  A parsed HTML document as BeautifulSoup holds it: a forest of tags (name, attributes in
  order, children) and strings (text, comments, declarations). The \<open>html.parser\<close> tree
  builder stores the \<open>class\<close> attribute as the list of its whitespace-separated
  values, other attributes as one string.
\<close>

datatype attr_value = Single pystr | Multi "pystr list"

datatype string_kind = PlainText | Comment | CData | ProcessingInstruction | Declaration | Doctype

datatype node =
    Tag pystr "(pystr \<times> attr_value) list" "node list"
  | NavigableString string_kind pystr

text \<open>
  The functions of BeautifulSoup, \<open>str\<close> and \<open>hashlib\<close> that the code calls and whose
  source is not part of the repository. They are parameters of the model:
  \<open>bs_parse s\<close> is the content of \<open>BeautifulSoup(s, 'html.parser')\<close>, \<open>bs_str\<close> is
  \<open>str(soup)\<close>, \<open>bs_get_text\<close> is \<open>soup.get_text()\<close>, \<open>str_lower\<close> is \<open>s.lower()\<close> and
  \<open>md5_hexdigest s\<close> is \<open>hashlib.md5(s.encode()).hexdigest()\<close>.
\<close>

record library =
  bs_parse :: "pystr \<Rightarrow> node list"
  bs_str :: "node list \<Rightarrow> pystr"
  bs_get_text :: "node list \<Rightarrow> pystr"
  str_lower :: "pystr \<Rightarrow> pystr"
  md5_hexdigest :: "pystr \<Rightarrow> pystr"

section \<open>JSONCombiner: cleaning HTML\<close>

text \<open>\<open>' '.join(vs)\<close>.\<close>

fun join_space :: "pystr list \<Rightarrow> pystr" where
  "join_space [] = []"
| "join_space [v] = v"
| "join_space (v # w # vs) = v @ 32 # join_space (w # vs)"

text \<open>Whether \<open>find_all(class_='js-post-notice')\<close> selects a tag with these attributes:
  one value of its \<open>class\<close> is the marker, or the whole attribute is.\<close>

definition is_notice :: "(pystr \<times> attr_value) list \<Rightarrow> bool" where
  "is_notice attrs =
     (case map_of attrs (str ''class'') of
        None \<Rightarrow> False
      | Some (Single v) \<Rightarrow> v = str ''js-post-notice''
      | Some (Multi vs) \<Rightarrow>
          str ''js-post-notice'' \<in> set vs \<or> join_space vs = str ''js-post-notice'')"

text \<open>\<open>soup.find_all(True)\<close>: every tag of the document, in document order.\<close>

fun find_all :: "node \<Rightarrow> node list" where
  "find_all (Tag name attrs children) =
     Tag name attrs children # concat (map find_all children)"
| "find_all (NavigableString k s) = []"

text \<open>The first loop of \<open>clean_html\<close>: every selected tag is decomposed, that is, removed
  from the document with everything below it.\<close>

fun decompose_notices :: "node \<Rightarrow> node list" where
  "decompose_notices (Tag name attrs children) =
     (if is_notice attrs then []
      else [Tag name attrs (concat (map decompose_notices children))])"
| "decompose_notices (NavigableString k s) = [NavigableString k s]"

text \<open>The second loop: on every tag, every attribute is deleted but \<open>href\<close> on an \<open>a\<close>.\<close>

fun remove_attributes :: "node \<Rightarrow> node" where
  "remove_attributes (Tag name attrs children) =
     Tag name (filter (\<lambda>kv. name = str ''a'' \<and> fst kv = str ''href'') attrs)
       (map remove_attributes children)"
| "remove_attributes (NavigableString k s) = NavigableString k s"

definition allowed_tags :: "pystr set" where
  "allowed_tags = {str ''p'', str ''code'', str ''a''}"

text \<open>The third loop: every tag whose name is not allowed is unwrapped, that is, replaced
  by its children.\<close>

fun unwrap_tags :: "node \<Rightarrow> node list" where
  "unwrap_tags (Tag name attrs children) =
     (if name \<in> allowed_tags then [Tag name attrs (concat (map unwrap_tags children))]
      else concat (map unwrap_tags children))"
| "unwrap_tags (NavigableString k s) = [NavigableString k s]"

text \<open>The document after the three loops.\<close>

definition clean_soup :: "node list \<Rightarrow> node list" where
  "clean_soup soup =
     concat (map unwrap_tags (map remove_attributes (concat (map decompose_notices soup))))"

definition clean_html :: "library \<Rightarrow> json \<Rightarrow> pystr" where
  "clean_html L html_content =
     (case html_content of
        JStr s \<Rightarrow> strip (collapse_ws (bs_str L (clean_soup (bs_parse L s))))
      | _ \<Rightarrow> [])"

text \<open>Deleting one notice element, with its subtree, somewhere in a document.\<close>

inductive delete_notice :: "node list \<Rightarrow> node list \<Rightarrow> bool" where
  here: "is_notice attrs \<Longrightarrow> delete_notice (xs @ Tag name attrs cs # ys) (xs @ ys)"
| below: "delete_notice cs cs' \<Longrightarrow>
     delete_notice (xs @ Tag name attrs cs # ys) (xs @ Tag name attrs cs' # ys)"

section \<open>JSONCombiner: hashing and deduplication\<close>

definition clean_question_content :: "library \<Rightarrow> json \<Rightarrow> pystr" where
  "clean_question_content L question_content =
     (let cleaned_html = clean_html L question_content;
          text = bs_get_text L (bs_parse L cleaned_html)
      in str_lower L (strip (collapse_ws text)))"

text \<open>\<open>entry\<close> is the items of the dict.\<close>

definition extract_question_content :: "library \<Rightarrow> (pystr \<times> json) list \<Rightarrow> pystr" where
  "extract_question_content L entry =
     (let question = dict_get entry (str ''question'') (JStr [])
      in clean_question_content L
           (case question of
              JObj d \<Rightarrow> dict_get d (str ''content'') (JStr [])
            | _ \<Rightarrow> question))"

definition hash_entry :: "library \<Rightarrow> (pystr \<times> json) list \<Rightarrow> pystr" where
  "hash_entry L entry = md5_hexdigest L (extract_question_content L entry)"

text \<open>Sequencing of steps that can raise.\<close>

definition and_then :: "error + 'a \<Rightarrow> ('a \<Rightarrow> error + 'b) \<Rightarrow> error + 'b" where
  "and_then m f = (case m of Inl e \<Rightarrow> Inl e | Inr x \<Rightarrow> f x)"

fun is_str :: "json \<Rightarrow> bool" where
  "is_str (JStr s) = True"
| "is_str _ = False"

text \<open>The cleaned question of \<open>process_file\<close>: the items it puts into
  \<open>processed_entry\<close> for the question.\<close>

definition clean_question :: "library \<Rightarrow> json \<Rightarrow> error + (pystr \<times> json) list" where
  "clean_question L entry =
     and_then (py_in (str ''question'') entry) (\<lambda>present.
       if present then
         and_then (py_getitem entry (str ''question'')) (\<lambda>question.
           case question of
             JStr s \<Rightarrow> Inr [(str ''question'', JStr (clean_html L question))]
           | JObj d \<Rightarrow>
               Inr [(str ''question'',
                     JObj [(str ''content'',
                            JStr (clean_html L (dict_get d (str ''content'') (JStr []))))])]
           | _ \<Rightarrow> Inr [])
       else Inr [])"

text \<open>The cleaned answers: every answer that is a string, cleaned.\<close>

definition clean_answers :: "library \<Rightarrow> json \<Rightarrow> error + (pystr \<times> json) list" where
  "clean_answers L entry =
     and_then (py_in (str ''answers'') entry) (\<lambda>present.
       if present then
         and_then (py_getitem entry (str ''answers'')) (\<lambda>answers.
           and_then (py_iter answers) (\<lambda>items.
             Inr [(str ''answers'',
                   JArr (map (\<lambda>answer. JStr (clean_html L answer)) (filter is_str items)))]))
       else Inr [])"

text \<open>\<open>processed_entry\<close> as the loop body of \<open>process_file\<close> builds it.\<close>

definition process_entry :: "library \<Rightarrow> json \<Rightarrow> error + (pystr \<times> json) list" where
  "process_entry L entry =
     and_then (clean_question L entry) (\<lambda>q.
       and_then (clean_answers L entry) (\<lambda>a. Inr (q @ a)))"

record combiner =
  duplicate_indices :: "(pystr \<times> (nat \<times> pystr) list) list"
  unique_entries :: "json list"
  hash_set :: "pystr set"

definition new_combiner :: combiner where
  "new_combiner = \<lparr>duplicate_indices = [], unique_entries = [], hash_set = {}\<rparr>"

text \<open>\<open>if h not in d: d[h] = []\<close> and then \<open>d[h].append(x)\<close>.\<close>

definition track_duplicate ::
  "(pystr \<times> (nat \<times> pystr) list) list \<Rightarrow> pystr \<Rightarrow> nat \<times> pystr
     \<Rightarrow> (pystr \<times> (nat \<times> pystr) list) list" where
  "track_duplicate d h x =
     (if map_of d h = None then d @ [(h, [x])]
      else map (\<lambda>kv. if fst kv = h then (fst kv, snd kv @ [x]) else kv) d)"

text \<open>The loop of \<open>process_file\<close> from index \<open>idx\<close> on; the state is the combiner and
  \<open>processed_entries\<close>.\<close>

fun process_loop ::
  "library \<Rightarrow> pystr \<Rightarrow> nat \<Rightarrow> json list \<Rightarrow> combiner \<times> json list
     \<Rightarrow> error + (combiner \<times> json list)" where
  "process_loop L file_path idx [] st = Inr st"
| "process_loop L file_path idx (entry # es) (c, processed_entries) =
     (case process_entry L entry of
        Inl e \<Rightarrow> Inl e
      | Inr processed_entry \<Rightarrow>
          (let entry_hash = hash_entry L processed_entry in
           if entry_hash \<in> hash_set c
           then process_loop L file_path (Suc idx) es
                  (c\<lparr>duplicate_indices :=
                       track_duplicate (duplicate_indices c) entry_hash (idx, file_path)\<rparr>,
                   processed_entries)
           else process_loop L file_path (Suc idx) es
                  (c\<lparr>hash_set := insert entry_hash (hash_set c)\<rparr>,
                   processed_entries @ [JObj processed_entry])))"

text \<open>\<open>read_json path\<close> is \<open>json.load\<close> on the opened file: the parsed content, or the
  error raised.\<close>

definition process_file ::
  "library \<Rightarrow> (pystr \<Rightarrow> error + json) \<Rightarrow> combiner \<Rightarrow> pystr
     \<Rightarrow> error + (combiner \<times> json list)" where
  "process_file L read_json c file_path =
     and_then (read_json file_path) (\<lambda>data.
       and_then (py_iter data) (\<lambda>entries.
         process_loop L file_path 0 entries (c, [])))"

record stats =
  original_file_counts :: "(pystr \<times> nat) list"
  total_original_entries :: nat
  unique_entries_count :: nat
  duplicates_removed :: int
  duplicate_report :: "(pystr \<times> (nat \<times> pystr) list) list"

text \<open>\<open>d[k] = v\<close> on the items of a dict.\<close>

definition dict_set :: "(pystr \<times> 'v) list \<Rightarrow> pystr \<Rightarrow> 'v \<Rightarrow> (pystr \<times> 'v) list" where
  "dict_set d k v =
     (if map_of d k = None then d @ [(k, v)]
      else map (\<lambda>kv. if fst kv = k then (k, v) else kv) d)"

text \<open>The loop of \<open>combine_files\<close>; the state is the combiner, \<open>total_entries\<close> and
  \<open>original_counts\<close>.\<close>

fun combine_loop ::
  "library \<Rightarrow> (pystr \<Rightarrow> error + json) \<Rightarrow> pystr list
     \<Rightarrow> combiner \<times> nat \<times> (pystr \<times> nat) list
     \<Rightarrow> error + (combiner \<times> nat \<times> (pystr \<times> nat) list)" where
  "combine_loop L read_json [] st = Inr st"
| "combine_loop L read_json (file_path # ps) (c, total_entries, original_counts) =
     (case process_file L read_json c file_path of
        Inl e \<Rightarrow> Inl e
      | Inr (c', entries) \<Rightarrow>
          combine_loop L read_json ps
            (c'\<lparr>unique_entries := unique_entries c' @ entries\<rparr>,
             total_entries + length entries,
             dict_set original_counts file_path (length entries)))"

text \<open>\<open>combine_files\<close> returns the statistics; the combiner it leaves holds in
  \<open>unique_entries\<close> what it wrote to the output file.\<close>

definition combine_files ::
  "library \<Rightarrow> (pystr \<Rightarrow> error + json) \<Rightarrow> combiner \<Rightarrow> pystr list
     \<Rightarrow> error + (stats \<times> combiner)" where
  "combine_files L read_json c file_paths =
     (case combine_loop L read_json file_paths (c, 0, []) of
        Inl e \<Rightarrow> Inl e
      | Inr (c', total_entries, original_counts) \<Rightarrow>
          Inr (\<lparr>original_file_counts = original_counts,
                total_original_entries = total_entries,
                unique_entries_count = length (unique_entries c'),
                duplicates_removed = int total_entries - int (length (unique_entries c')),
                duplicate_report = duplicate_indices c'\<rparr>,
               c'))"

text \<open>A node all of whose tags are allowed and carry nothing but \<open>href\<close> on an \<open>a\<close>.\<close>

fun only_allowed :: "node \<Rightarrow> bool" where
  "only_allowed (Tag name attrs cs) \<longleftrightarrow>
     name \<in> allowed_tags \<and> (\<forall>kv \<in> set attrs. name = str ''a'' \<and> fst kv = str ''href'') \<and>
     (\<forall>c \<in> set cs. only_allowed c)"
| "only_allowed (NavigableString k s) \<longleftrightarrow> True"

section \<open>The input sequence of a run, for stating what deduplication keeps\<close>

text \<open>The processed form of an entry that \<open>process_file\<close> can process.\<close>

definition the_processed :: "library \<Rightarrow> json \<Rightarrow> (pystr \<times> json) list" where
  "the_processed L entry = (case process_entry L entry of Inr p \<Rightarrow> p | Inl e \<Rightarrow> [])"

text \<open>A record of the input sequence: its index in its file, the file, its processed
  form.\<close>

type_synonym input_record = "nat \<times> pystr \<times> (pystr \<times> json) list"

definition record_hash :: "library \<Rightarrow> input_record \<Rightarrow> pystr" where
  "record_hash L r = hash_entry L (snd (snd r))"

definition record_location :: "input_record \<Rightarrow> nat \<times> pystr" where
  "record_location r = (fst r, fst (snd r))"

definition record_entry :: "input_record \<Rightarrow> json" where
  "record_entry r = JObj (snd (snd r))"

definition records_from :: "library \<Rightarrow> pystr \<Rightarrow> nat \<Rightarrow> json list \<Rightarrow> input_record list" where
  "records_from L file_path idx es =
     map (\<lambda>ie. (fst ie, file_path, the_processed L (snd ie))) (enumerate idx es)"

definition file_records ::
  "library \<Rightarrow> (pystr \<Rightarrow> error + json) \<Rightarrow> pystr \<Rightarrow> input_record list" where
  "file_records L read_json file_path =
     (case read_json file_path of
        Inl e \<Rightarrow> []
      | Inr data \<Rightarrow>
          (case py_iter data of
             Inl e \<Rightarrow> []
           | Inr es \<Rightarrow> records_from L file_path 0 es))"

text \<open>All records of the files of a run, in the order the run reads them.\<close>

definition all_records ::
  "library \<Rightarrow> (pystr \<Rightarrow> error + json) \<Rightarrow> pystr list \<Rightarrow> input_record list" where
  "all_records L read_json file_paths = concat (map (file_records L read_json) file_paths)"

text \<open>The hash of an entry of the output.\<close>

definition entry_hash :: "library \<Rightarrow> json \<Rightarrow> pystr" where
  "entry_hash L r = (case r of JObj p \<Rightarrow> hash_entry L p | _ \<Rightarrow> [])"

text \<open>What one turn of the loop of \<open>process_file\<close> does with a record.\<close>

definition dedup_step ::
  "library \<Rightarrow> combiner \<times> json list \<Rightarrow> input_record \<Rightarrow> combiner \<times> json list" where
  "dedup_step L st r =
     (let c = fst st; h = record_hash L r in
      if h \<in> hash_set c
      then (c\<lparr>duplicate_indices := track_duplicate (duplicate_indices c) h (record_location r)\<rparr>,
            snd st)
      else (c\<lparr>hash_set := insert h (hash_set c)\<rparr>, snd st @ [record_entry r]))"

text \<open>The state of deduplication after the records \<open>seen\<close>: the hashes seen, the
  first record of each hash kept, the later ones reported under their hash.\<close>

definition dedup_state ::
  "library \<Rightarrow> input_record list \<Rightarrow> pystr set \<Rightarrow> (pystr \<times> (nat \<times> pystr) list) list
     \<Rightarrow> json list \<Rightarrow> bool" where
  "dedup_state L seen hs dups kept \<longleftrightarrow>
     hs = set (map (record_hash L) seen) \<and>
     (\<forall>h. filter (\<lambda>e. entry_hash L e = h) kept =
          map record_entry (take 1 (filter (\<lambda>r. record_hash L r = h) seen))) \<and>
     (\<forall>h. map_of dups h =
          (if length (filter (\<lambda>r. record_hash L r = h) seen) \<le> 1 then None
           else Some (map record_location (tl (filter (\<lambda>r. record_hash L r = h) seen)))))"

text \<open>What the code relies on when it cleans the empty string: the empty markup parses to
  the empty document, whose serialisation and text are empty, and the empty string has no
  letters to lower.\<close>

definition empty_document :: "library \<Rightarrow> bool" where
  "empty_document L \<longleftrightarrow>
     bs_parse L [] = [] \<and> bs_str L [] = [] \<and> bs_get_text L [] = [] \<and> str_lower L [] = []"

text \<open>A record without a usable question: the \<open>question\<close> key is absent, or its value is
  neither a string nor a dict with a \<open>content\<close> key.\<close>

definition questionless :: "json \<Rightarrow> bool" where
  "questionless entry =
     (case entry of
        JObj kvs \<Rightarrow>
          (case map_of kvs (str ''question'') of
             None \<Rightarrow> True
           | Some (JStr s) \<Rightarrow> False
           | Some (JObj d) \<Rightarrow> map_of d (str ''content'') = None
           | Some _ \<Rightarrow> True)
      | _ \<Rightarrow> False)"

text \<open>An instance of the library that recognises no markup: a string that is not empty
  parses to one text node, serialisation and text extraction give the strings back,
  \<open>A\<close> to \<open>Z\<close> are lowered, and the digest of a text is the text. It shows that the
  assumptions made on the library can be met.\<close>

fun node_text :: "node \<Rightarrow> pystr" where
  "node_text (Tag name attrs children) = concat (map node_text children)"
| "node_text (NavigableString k s) = s"

definition plain_library :: library where
  "plain_library =
     \<lparr>bs_parse = (\<lambda>s. if s = [] then [] else [NavigableString PlainText s]),
      bs_str = (\<lambda>soup. concat (map node_text soup)),
      bs_get_text = (\<lambda>soup. concat (map node_text soup)),
      str_lower = map (\<lambda>c. if 65 \<le> c \<and> c \<le> 90 then c + 32 else c),
      md5_hexdigest = (\<lambda>s. s)\<rparr>"

text \<open>The two files of the end-to-end example: one record each, the same question text
  with different whitespace, different answers.\<close>

definition example_files :: "pystr \<Rightarrow> error + json" where
  "example_files path =
     (if path = str ''first.json'' then
        Inr (JArr [JObj [(str ''question'', JStr (str ''<p>What is X?</p>'')),
                         (str ''answers'', JArr [JStr (str ''<p>X is Y</p>'')])]])
      else if path = str ''second.json'' then
        Inr (JArr [JObj [(str ''question'', JStr (str ''<p>What   is  X?</p>  '')),
                         (str ''answers'', JArr [JStr (str ''<p>X is Z</p>'')])]])
      else Inl OSError)"

text \<open>Two files with four records that have no usable question and one that has.\<close>

definition questionless_files :: "pystr \<Rightarrow> error + json" where
  "questionless_files path =
     (if path = str ''qa.json'' then
        Inr (JArr [JObj [(str ''answers'', JArr [JStr (str ''<p>a</p>'')])],
                   JObj [(str ''question'', JNum 5), (str ''answers'', JArr [])],
                   JObj [(str ''question'', JObj [(str ''body'', JStr (str ''x''))]),
                         (str ''answers'', JArr [])],
                   JObj [(str ''question'', JStr (str ''<p>Q</p>'')), (str ''answers'', JArr [])]])
      else if path = str ''qb.json'' then
        Inr (JArr [JObj [(str ''answers'', JArr [])]])
      else Inl OSError)"

section \<open>Preprocessor: the code tokenizer\<close>

text \<open>The character classes \<open>[A-Za-z_]\<close> and \<open>[A-Za-z0-9_]\<close>.\<close>

definition ident_start :: "nat \<Rightarrow> bool" where
  "ident_start c \<longleftrightarrow> (65 \<le> c \<and> c \<le> 90) \<or> (97 \<le> c \<and> c \<le> 122) \<or> c = 95"

definition ident_char :: "nat \<Rightarrow> bool" where
  "ident_char c \<longleftrightarrow> ident_start c \<or> (48 \<le> c \<and> c \<le> 57)"

definition non_space :: "nat \<Rightarrow> bool" where
  "non_space c \<longleftrightarrow> \<not> is_space c"

text \<open>
  The tokenizer of \<open>code_vectoriser\<close>: \<open>re.compile(token_pattern).findall\<close> for the
  pattern \<open>[A-Za-z_][A-Za-z0-9_]*|\S+\<close>. At each position the first alternative is
  tried, then the second (both greedy); where neither matches, the scan moves on by one
  character.
\<close>

function code_tokens :: "pystr \<Rightarrow> pystr list" where
  "code_tokens [] = []"
| "code_tokens (c # s) =
     (if ident_start c then (c # takeWhile ident_char s) # code_tokens (dropWhile ident_char s)
      else if non_space c then (c # takeWhile non_space s) # code_tokens (dropWhile non_space s)
      else code_tokens s)"
  by pat_completeness auto
termination
  by (relation "measure length") (auto simp: length_dropWhile_le le_imp_less_Suc)

text \<open>The analyzer of \<open>code_vectoriser\<close>: the document is lowered, then tokenized.\<close>

definition code_analyzer :: "library \<Rightarrow> pystr \<Rightarrow> pystr list" where
  "code_analyzer L doc = code_tokens (str_lower L doc)"

text \<open>A token that matches \<open>[A-Za-z_][A-Za-z0-9_]*\<close> as a whole.\<close>

definition is_identifier :: "pystr \<Rightarrow> bool" where
  "is_identifier t \<longleftrightarrow> (case t of [] \<Rightarrow> False | c # s \<Rightarrow> ident_start c \<and> list_all ident_char s)"

text \<open>The words of a string: its maximal runs of characters that are not whitespace
  (what \<open>s.split()\<close> returns).\<close>

function split_words :: "pystr \<Rightarrow> pystr list" where
  "split_words [] = []"
| "split_words (c # s) =
     (if non_space c then (c # takeWhile non_space s) # split_words (dropWhile non_space s)
      else split_words s)"
  by pat_completeness auto
termination
  by (relation "measure length") (auto simp: length_dropWhile_le le_imp_less_Suc)

text \<open>The tokens of one word: a word that starts with a letter or an underscore gives its
  longest identifier prefix and, if anything is left, the rest as one token; any other
  word is one token.\<close>

definition word_tokens :: "pystr \<Rightarrow> pystr list" where
  "word_tokens w =
     (case w of
        [] \<Rightarrow> []
      | c # s \<Rightarrow>
          if ident_start c
          then (c # takeWhile ident_char s) #
                 (if dropWhile ident_char s = [] then [] else [dropWhile ident_char s])
          else [w])"

section \<open>Preprocessor: text and code channels, vocabulary, bag of words\<close>

text \<open>
  More functions whose source is outside the repository: \<open>tag_text t\<close> is
  \<open>t.get_text(strip=True)\<close>, \<open>html_unescape\<close> is \<open>html.unescape\<close>, \<open>is_word_char\<close> is the
  class \<open>\w\<close>, and \<open>cv_fit\<close> and \<open>cv_transform\<close> are \<open>CountVectorizer.fit\<close> (the
  vocabulary it builds, or the error it raises) and \<open>CountVectorizer.transform\<close> followed
  by \<open>toarray()\<close> (one row of counts per document), for a vectorizer made with the given
  token pattern and \<open>max_features\<close>.
\<close>

datatype token_pattern = CodePattern | DefaultPattern

record toolkit =
  tag_text :: "node \<Rightarrow> pystr"
  html_unescape :: "pystr \<Rightarrow> pystr"
  is_word_char :: "nat \<Rightarrow> bool"
  cv_fit :: "token_pattern \<Rightarrow> nat \<Rightarrow> pystr list \<Rightarrow> error + (pystr \<times> nat) list"
  cv_transform :: "token_pattern \<Rightarrow> nat \<Rightarrow> (pystr \<times> nat) list \<Rightarrow> pystr list \<Rightarrow> nat list list"

record vectoriser =
  cv_token_pattern :: token_pattern
  cv_max_features :: nat
  cv_vocabulary :: "(pystr \<times> nat) list option"

record preprocessor =
  min_word_freq :: int
  max_vocab_size :: nat
  code_vectoriser :: vectoriser
  text_vectoriser :: vectoriser

text \<open>\<open>DataPreprocessor.__init__\<close>.\<close>

definition init :: "int \<Rightarrow> nat \<Rightarrow> preprocessor" where
  "init min_word_freq' max_vocab_size' =
     \<lparr>min_word_freq = min_word_freq',
      max_vocab_size = max_vocab_size',
      code_vectoriser = \<lparr>cv_token_pattern = CodePattern, cv_max_features = max_vocab_size',
                          cv_vocabulary = None\<rparr>,
      text_vectoriser = \<lparr>cv_token_pattern = DefaultPattern, cv_max_features = max_vocab_size',
                          cv_vocabulary = None\<rparr>\<rparr>"

text \<open>\<open>s.replace(old, new)\<close> for a pattern \<open>old\<close> that is not empty.\<close>

function str_replace :: "pystr \<Rightarrow> pystr \<Rightarrow> pystr \<Rightarrow> pystr" where
  "str_replace old new [] = []"
| "str_replace old new (c # s) =
     (if old \<noteq> [] \<and> prefix old (c # s)
      then new @ str_replace old new (drop (length old) (c # s))
      else c # str_replace old new s)"
  by pat_completeness auto
termination
  by (relation "measure (\<lambda>(old, new, s). length s)") (auto simp: Suc_le_eq intro: diff_less)

text \<open>The methods of \<open>DataPreprocessor\<close> take the object as \<open>self\<close>.\<close>

definition unescape_json :: "preprocessor \<Rightarrow> pystr \<Rightarrow> pystr" where
  "unescape_json self text =
     (let text = str_replace [92, 34] [34] text;
          text = str_replace [92, 110] [32] text;
          text = str_replace [92, 116] [32] text;
          text = str_replace [92, 114] [32] text;
          text = str_replace [92, 92] [92] text
      in str_replace [92, 47] [47] text)"

definition decode_html :: "toolkit \<Rightarrow> preprocessor \<Rightarrow> pystr \<Rightarrow> pystr" where
  "decode_html K self text = html_unescape K text"

definition clean_text :: "toolkit \<Rightarrow> preprocessor \<Rightarrow> json \<Rightarrow> pystr" where
  "clean_text K self text =
     (case text of
        JStr s \<Rightarrow> strip (collapse_ws (decode_html K self (unescape_json self s)))
      | _ \<Rightarrow> [])"

text \<open>\<open>re.sub(marker + r'.*$', '', code, flags=re.MULTILINE)\<close> for the marker \<open>#\<close> or
  \<open>//\<close>: from each marker, the rest of the line goes.\<close>

function strip_line_comments :: "pystr \<Rightarrow> pystr \<Rightarrow> pystr" where
  "strip_line_comments marker [] = []"
| "strip_line_comments marker (c # s) =
     (if marker \<noteq> [] \<and> prefix marker (c # s)
      then strip_line_comments marker (dropWhile (\<lambda>d. d \<noteq> 10) (drop (length marker) (c # s)))
      else c # strip_line_comments marker s)"
  by pat_completeness auto
termination
proof (relation "measure (\<lambda>(marker, s). length s)")
  fix marker :: pystr and c s
  assume "marker \<noteq> [] \<and> prefix marker (c # s)"
  then have "length (drop (length marker) (c # s)) < length (c # s)"
    by (cases marker) auto
  moreover have "length (dropWhile (\<lambda>d. d \<noteq> 10) (drop (length marker) (c # s)))
      \<le> length (drop (length marker) (c # s))"
    by (rule length_dropWhile_le)
  ultimately show "((marker, dropWhile (\<lambda>d. d \<noteq> 10) (drop (length marker) (c # s))),
      marker, c # s) \<in> measure (\<lambda>(marker, s). length s)"
    by simp
qed auto

text \<open>\<open>re.sub(r'/\*.*?\*/', '', code, flags=re.DOTALL)\<close>; the fuel bounds the number of
  characters scanned.\<close>

fun strip_block_comments :: "nat \<Rightarrow> pystr \<Rightarrow> pystr" where
  "strip_block_comments 0 s = s"
| "strip_block_comments (Suc n) [] = []"
| "strip_block_comments (Suc n) (c # s) =
     (if prefix [47, 42] (c # s) then
        (case split_at [42, 47] (drop 2 (c # s)) of
           None \<Rightarrow> c # strip_block_comments n s
         | Some (inner, after) \<Rightarrow> strip_block_comments n after)
      else c # strip_block_comments n s)"

definition preprocess_code :: "toolkit \<Rightarrow> preprocessor \<Rightarrow> pystr \<Rightarrow> pystr" where
  "preprocess_code K self code =
     (let code = unescape_json self code;
          code = strip_line_comments [35] code;
          code = strip_line_comments [47, 47] code;
          code = strip_block_comments (length code) code;
          code = collapse_ws code;
          code = concat (map (\<lambda>c. if \<not> is_word_char K c \<and> \<not> is_space c then [32, c, 32] else [c])
                          code)
      in strip code)"

definition preprocess_text :: "library \<Rightarrow> preprocessor \<Rightarrow> pystr \<Rightarrow> pystr" where
  "preprocess_text L self text =
     (let text = unescape_json self text;
          text = str_lower L text;
          text = map (\<lambda>c. if (97 \<le> c \<and> c \<le> 122) \<or> (48 \<le> c \<and> c \<le> 57) \<or> is_space c \<or> c = 46
                          then c else 32) text;
          text = collapse_ws text
      in strip text)"

text \<open>\<open>soup.find_all('code')\<close>, as far as the loop sees text in them: a \<open>code\<close> tag inside
  another one is decomposed with the outer one before its turn, and then has no text.\<close>

fun outer_code_tags :: "node \<Rightarrow> node list" where
  "outer_code_tags (Tag name attrs children) =
     (if name = str ''code'' then [Tag name attrs children]
      else concat (map outer_code_tags children))"
| "outer_code_tags (NavigableString k s) = []"

fun decompose_code :: "node \<Rightarrow> node list" where
  "decompose_code (Tag name attrs children) =
     (if name = str ''code'' then []
      else [Tag name attrs (concat (map decompose_code children))])"
| "decompose_code (NavigableString k s) = [NavigableString k s]"

fun is_p_or_a :: "node \<Rightarrow> bool" where
  "is_p_or_a (Tag name attrs children) \<longleftrightarrow> name = str ''p'' \<or> name = str ''a''"
| "is_p_or_a (NavigableString k s) \<longleftrightarrow> False"

definition extract_code_and_text ::
  "library \<Rightarrow> toolkit \<Rightarrow> preprocessor \<Rightarrow> pystr \<Rightarrow> pystr list \<times> pystr list" where
  "extract_code_and_text L K self html_content =
     (let soup = bs_parse L html_content;
          code_blocks = filter (\<lambda>t. t \<noteq> []) (map (tag_text K) (concat (map outer_code_tags soup)));
          soup = concat (map decompose_code soup);
          text_links = filter is_p_or_a (concat (map find_all soup));
          text_blocks = filter (\<lambda>t. t \<noteq> []) (map (tag_text K) text_links)
      in (code_blocks, text_blocks))"

text \<open>A processed entry; a key the loop of \<open>process_file\<close> did not set is \<open>None\<close>.\<close>

record processed_entry =
  question_code :: "pystr list option"
  question_text :: "pystr list option"
  answer_code :: "pystr list option"
  answer_text :: "pystr list option"

text \<open>The body of the loop of \<open>DataPreprocessor.process_file\<close> on one validated entry
  (the items of the dict).\<close>

definition preprocess_entry ::
  "library \<Rightarrow> toolkit \<Rightarrow> preprocessor \<Rightarrow> (pystr \<times> json) list \<Rightarrow> error + processed_entry" where
  "preprocess_entry L K self entry =
     (let q = (case map_of entry (str ''question'') of
                 None \<Rightarrow> (None, None)
               | Some v \<Rightarrow>
                   (case extract_code_and_text L K self (clean_text K self v) of
                      (code_blocks, text_blocks) \<Rightarrow>
                        (Some (map (preprocess_code K self) code_blocks),
                         Some (map (preprocess_text L self) text_blocks))))
      in case map_of entry (str ''answers'') of
           None \<Rightarrow>
             Inr \<lparr>question_code = fst q, question_text = snd q,
                  answer_code = None, answer_text = None\<rparr>
         | Some answers \<Rightarrow>
             and_then (py_iter answers) (\<lambda>items.
               let blocks = map (\<lambda>answer. extract_code_and_text L K self (clean_text K self answer))
                              items
               in Inr \<lparr>question_code = fst q, question_text = snd q,
                       answer_code =
                         Some (concat (map (\<lambda>b. map (preprocess_code K self) (fst b)) blocks)),
                       answer_text =
                         Some (concat (map (\<lambda>b. map (preprocess_text L self) (snd b)) blocks))\<rparr>))"

text \<open>\<open>entry[key]\<close> on a processed entry.\<close>

definition entry_key :: "pystr list option \<Rightarrow> error + pystr list" where
  "entry_key v = (case v of None \<Rightarrow> Inl KeyError | Some x \<Rightarrow> Inr x)"

text \<open>The first loop of \<open>create_vocabulary\<close>: \<open>all_code\<close> and \<open>all_text\<close>.\<close>

fun collect_all ::
  "processed_entry list \<Rightarrow> pystr list \<times> pystr list \<Rightarrow> error + (pystr list \<times> pystr list)" where
  "collect_all [] acc = Inr acc"
| "collect_all (entry # es) (all_code, all_text) =
     and_then (entry_key (question_code entry)) (\<lambda>qc.
     and_then (entry_key (answer_code entry)) (\<lambda>ac.
     and_then (entry_key (question_text entry)) (\<lambda>qt.
     and_then (entry_key (answer_text entry)) (\<lambda>at.
       collect_all es (all_code @ qc @ ac, all_text @ qt @ at)))))"

text \<open>\<open>vectoriser.fit(docs)\<close>.\<close>

definition fit :: "toolkit \<Rightarrow> vectoriser \<Rightarrow> pystr list \<Rightarrow> error + vectoriser" where
  "fit K v docs =
     and_then (cv_fit K (cv_token_pattern v) (cv_max_features v) docs) (\<lambda>vocab.
       Inr (v\<lparr>cv_vocabulary := Some vocab\<rparr>))"

definition create_vocabulary ::
  "toolkit \<Rightarrow> preprocessor \<Rightarrow> processed_entry list \<Rightarrow> error + preprocessor" where
  "create_vocabulary K self processed_data =
     and_then (collect_all processed_data ([], [])) (\<lambda>(all_code, all_text).
     and_then (fit K (code_vectoriser self) all_code) (\<lambda>cv.
     and_then (fit K (text_vectoriser self) all_text) (\<lambda>tv.
       Inr (self\<lparr>code_vectoriser := cv, text_vectoriser := tv\<rparr>))))"

text \<open>\<open>vectoriser.transform(docs).toarray().sum(axis=0)\<close> when \<open>docs\<close> is not empty,
  \<open>np.zeros(len(vectoriser.vocabulary_))\<close> when it is.\<close>

definition bag_of :: "toolkit \<Rightarrow> vectoriser \<Rightarrow> pystr list \<Rightarrow> error + nat list" where
  "bag_of K v docs =
     (case cv_vocabulary v of
        None \<Rightarrow> Inl (ValueError (str ''not fitted''))
      | Some vocab \<Rightarrow>
          if docs \<noteq> []
          then Inr (foldr (map2 (+))
                      (cv_transform K (cv_token_pattern v) (cv_max_features v) vocab docs)
                      (replicate (length vocab) 0))
          else Inr (replicate (length vocab) 0))"

record bag_of_words_data =
  bow_question_code :: "nat list"
  bow_answer_code :: "nat list"
  bow_question_text :: "nat list"
  bow_answer_text :: "nat list"

definition transform_to_bag_of_words_data ::
  "toolkit \<Rightarrow> preprocessor \<Rightarrow> processed_entry \<Rightarrow> error + bag_of_words_data" where
  "transform_to_bag_of_words_data K self processed_entry =
     and_then (entry_key (question_code processed_entry)) (\<lambda>qc.
     and_then (bag_of K (code_vectoriser self) qc) (\<lambda>bqc.
     and_then (entry_key (answer_code processed_entry)) (\<lambda>ac.
     and_then (bag_of K (code_vectoriser self) ac) (\<lambda>bac.
     and_then (entry_key (question_text processed_entry)) (\<lambda>qt.
     and_then (bag_of K (text_vectoriser self) qt) (\<lambda>bqt.
     and_then (entry_key (answer_text processed_entry)) (\<lambda>at.
     and_then (bag_of K (text_vectoriser self) at) (\<lambda>bat.
       Inr \<lparr>bow_question_code = bqc, bow_answer_code = bac,
            bow_question_text = bqt, bow_answer_text = bat\<rparr>))))))))"

text \<open>A list of steps that can raise, run in order.\<close>

fun all_or_error :: "(error + 'a) list \<Rightarrow> error + 'a list" where
  "all_or_error [] = Inr []"
| "all_or_error (x # xs) =
     and_then x (\<lambda>y. and_then (all_or_error xs) (\<lambda>ys. Inr (y # ys)))"

text \<open>\<open>DataPreprocessor.process_file\<close> on the entries \<open>load_json_safely\<close> returned
  (each one a dict, by \<open>validate_json_entry\<close>): the bag-of-words dataset and the object
  with its fitted vectorisers.\<close>

definition preprocess_entries ::
  "library \<Rightarrow> toolkit \<Rightarrow> preprocessor \<Rightarrow> json list
     \<Rightarrow> error + (bag_of_words_data list \<times> preprocessor)" where
  "preprocess_entries L K self data =
     and_then (all_or_error (map (\<lambda>entry. case entry of
                                     JObj kvs \<Rightarrow> preprocess_entry L K self kvs
                                   | _ \<Rightarrow> Inl TypeError) data)) (\<lambda>processed_data.
     and_then (create_vocabulary K self processed_data) (\<lambda>self'.
     and_then (all_or_error (map (transform_to_bag_of_words_data K self') processed_data))
       (\<lambda>bag_of_words_dataset. Inr (bag_of_words_dataset, self'))))"

text \<open>What a run writes out: the dataset and the two vocabularies.\<close>

definition run_output ::
  "error + (bag_of_words_data list \<times> preprocessor)
     \<Rightarrow> error + (bag_of_words_data list \<times> (pystr \<times> nat) list option \<times> (pystr \<times> nat) list option)" where
  "run_output r =
     (case r of
        Inl e \<Rightarrow> Inl e
      | Inr (dataset, self) \<Rightarrow>
          Inr (dataset, cv_vocabulary (code_vectoriser self), cv_vocabulary (text_vectoriser self)))"

section \<open>Reading JSON text\<close>

text \<open>
  \<open>json.loads\<close>, whose source is outside the repository, modelled from the JSON grammar
  as Python reads it: the text is cut into tokens, and a value is read from the tokens.
  Whitespace between tokens is space, tab, line feed and carriage return; a string body
  runs to the first quote that no backslash escapes. The limits Python puts on the depth
  of nesting and on the digits of an integer are left out.
\<close>

datatype token =
    LBrace | RBrace | LBracket | RBracket | Colon | Comma
  | TString pystr
  | TAtom pystr

definition json_ws :: "nat \<Rightarrow> bool" where
  "json_ws c \<longleftrightarrow> c = 32 \<or> c = 9 \<or> c = 10 \<or> c = 13"

definition structural :: "nat \<Rightarrow> bool" where
  "structural c \<longleftrightarrow> c = 123 \<or> c = 125 \<or> c = 91 \<or> c = 93 \<or> c = 58 \<or> c = 44"

definition atom_char :: "nat \<Rightarrow> bool" where
  "atom_char c \<longleftrightarrow> \<not> json_ws c \<and> \<not> structural c \<and> c \<noteq> 34"

definition structural_token :: "nat \<Rightarrow> token" where
  "structural_token c =
     (if c = 123 then LBrace else if c = 125 then RBrace else if c = 91 then LBracket
      else if c = 93 then RBracket else if c = 58 then Colon else Comma)"

text \<open>The body of a string whose opening quote has been read, and the text after its
  closing quote.\<close>

fun string_end :: "pystr \<Rightarrow> (pystr \<times> pystr) option" where
  "string_end [] = None"
| "string_end (c # s) =
     (if c = 34 then Some ([], s)
      else if c = 92 then
        (case s of
           [] \<Rightarrow> None
         | e # r \<Rightarrow>
             (case string_end r of
                None \<Rightarrow> None
              | Some (body, rest) \<Rightarrow> Some (c # e # body, rest)))
      else
        (case string_end s of None \<Rightarrow> None | Some (body, rest) \<Rightarrow> Some (c # body, rest)))"

text \<open>The tokens of a text, or \<open>None\<close> when a string is not closed.\<close>

function lex :: "pystr \<Rightarrow> token list option" where
  "lex [] = Some []"
| "lex (c # s) =
     (if json_ws c then lex s
      else if c = 34 then
        (case string_end s of
           None \<Rightarrow> None
         | Some (body, rest) \<Rightarrow> map_option (Cons (TString body)) (lex rest))
      else if structural c then map_option (Cons (structural_token c)) (lex s)
      else map_option (Cons (TAtom (c # takeWhile atom_char s))) (lex (dropWhile atom_char s)))"
  by pat_completeness auto
termination
proof (relation "measure length")
  fix c :: nat and s x2 x y
  assume "string_end s = Some x2" and "(x, y) = x2"
  then have e: "string_end s = Some (x, y)" by simp
  have "length rest < length t" if "string_end t = Some (body, rest)" for t body rest
    using that
    by (induction t arbitrary: body rest rule: string_end.induct)
      (fastforce split: if_splits option.splits list.splits)+
  from this [OF e] have "length y < length s" .
  then show "(y, c # s) \<in> measure length" by simp
qed (auto simp: length_dropWhile_le less_Suc_eq_le)

text \<open>A string body is accepted when every backslash starts an escape and no character
  is a control character (Python's strict mode).\<close>

definition is_hex :: "nat \<Rightarrow> bool" where
  "is_hex c \<longleftrightarrow> (48 \<le> c \<and> c \<le> 57) \<or> (65 \<le> c \<and> c \<le> 70) \<or> (97 \<le> c \<and> c \<le> 102)"

definition simple_escape :: "nat \<Rightarrow> bool" where
  "simple_escape e \<longleftrightarrow>
     e = 34 \<or> e = 92 \<or> e = 47 \<or> e = 98 \<or> e = 102 \<or> e = 110 \<or> e = 114 \<or> e = 116"

fun valid_body :: "pystr \<Rightarrow> bool" where
  "valid_body [] \<longleftrightarrow> True"
| "valid_body (c # s) \<longleftrightarrow>
     (if c = 92 then
        (case s of
           [] \<Rightarrow> False
         | e # r \<Rightarrow>
             if simple_escape e then valid_body r
             else if e = 117 then
               (case r of
                  h1 # h2 # h3 # h4 # r' \<Rightarrow>
                    is_hex h1 \<and> is_hex h2 \<and> is_hex h3 \<and> is_hex h4 \<and> valid_body r'
                | _ \<Rightarrow> False)
             else False)
      else 32 \<le> c \<and> c \<noteq> 34 \<and> valid_body s)"

definition hex_value :: "nat \<Rightarrow> nat" where
  "hex_value c = (if c \<le> 57 then c - 48 else if c \<le> 70 then c - 55 else c - 87)"

definition escape_value :: "nat \<Rightarrow> nat" where
  "escape_value e =
     (if e = 98 then 8 else if e = 102 then 12 else if e = 110 then 10
      else if e = 114 then 13 else if e = 116 then 9 else e)"

text \<open>The string a valid body stands for. A \<open>\u\<close> escape gives its code unit; two of
  them that form a surrogate pair give one character.\<close>

fun decode_body :: "pystr \<Rightarrow> pystr" where
  "decode_body (c # e # h1 # h2 # h3 # h4 # r) =
     (if c = 92 \<and> e = 117 then
        (let u = ((hex_value h1 * 16 + hex_value h2) * 16 + hex_value h3) * 16 + hex_value h4
         in case r of
              c2 # e2 # g1 # g2 # g3 # g4 # r' \<Rightarrow>
                (let w = ((hex_value g1 * 16 + hex_value g2) * 16 + hex_value g3) * 16
                           + hex_value g4
                 in if 55296 \<le> u \<and> u \<le> 56319 \<and> c2 = 92 \<and> e2 = 117 \<and> 56320 \<le> w \<and> w \<le> 57343
                    then (65536 + (u - 55296) * 1024 + (w - 56320)) # decode_body r'
                    else u # decode_body r)
            | _ \<Rightarrow> u # decode_body r)
      else if c = 92 then escape_value e # decode_body (h1 # h2 # h3 # h4 # r)
      else c # decode_body (e # h1 # h2 # h3 # h4 # r))"
| "decode_body (c # e # r) =
     (if c = 92 then escape_value e # decode_body r else c # decode_body (e # r))"
| "decode_body s = s"

definition decode_string :: "pystr \<Rightarrow> pystr option" where
  "decode_string body = (if valid_body body then Some (decode_body body) else None)"

text \<open>Numbers: \<open>-?(0|[1-9][0-9]*)\<close>, then an optional fraction and an optional exponent.\<close>

definition is_digit :: "nat \<Rightarrow> bool" where
  "is_digit c \<longleftrightarrow> 48 \<le> c \<and> c \<le> 57"

definition number_char :: "nat \<Rightarrow> bool" where
  "number_char c \<longleftrightarrow> is_digit c \<or> c = 45 \<or> c = 43 \<or> c = 46 \<or> c = 101 \<or> c = 69"

definition int_part_ok :: "pystr \<Rightarrow> bool" where
  "int_part_ok ds \<longleftrightarrow> ds \<noteq> [] \<and> (hd ds = 48 \<longrightarrow> length ds = 1)"

definition exponent_ok :: "pystr \<Rightarrow> bool" where
  "exponent_ok s \<longleftrightarrow>
     (case s of
        [] \<Rightarrow> True
      | c # r \<Rightarrow>
          (c = 101 \<or> c = 69) \<and>
          (let ds = (case r of [] \<Rightarrow> [] | d # r' \<Rightarrow> if d = 43 \<or> d = 45 then r' else r)
           in ds \<noteq> [] \<and> list_all is_digit ds))"

definition fraction_ok :: "pystr \<Rightarrow> bool" where
  "fraction_ok s \<longleftrightarrow>
     (case s of
        [] \<Rightarrow> True
      | c # r \<Rightarrow>
          if c = 46 then takeWhile is_digit r \<noteq> [] \<and> exponent_ok (dropWhile is_digit r)
          else exponent_ok s)"

definition unsigned :: "pystr \<Rightarrow> pystr" where
  "unsigned a = (case a of [] \<Rightarrow> [] | c # r \<Rightarrow> if c = 45 then r else a)"

definition is_number :: "pystr \<Rightarrow> bool" where
  "is_number a \<longleftrightarrow>
     list_all number_char a \<and> int_part_ok (takeWhile is_digit (unsigned a)) \<and>
     fraction_ok (dropWhile is_digit (unsigned a))"

definition digits_value :: "pystr \<Rightarrow> int" where
  "digits_value ds = foldl (\<lambda>v d. v * 10 + (int d - 48)) 0 ds"

definition parse_atom :: "pystr \<Rightarrow> json option" where
  "parse_atom a =
     (if a = str ''null'' then Some JNull
      else if a = str ''true'' then Some (JBool True)
      else if a = str ''false'' then Some (JBool False)
      else if a = str ''NaN'' \<or> a = str ''Infinity'' \<or> a = str ''-Infinity'' then Some (JFloat a)
      else if is_number a then
        (if list_all is_digit (unsigned a)
         then Some (JNum (if a = unsigned a then digits_value a else - digits_value (unsigned a)))
         else Some (JFloat a))
      else None)"

text \<open>\<open>dict(pairs)\<close>: a key that comes again keeps its place and takes the new value.\<close>

definition dict_of :: "(pystr \<times> json) list \<Rightarrow> (pystr \<times> json) list" where
  "dict_of ms = foldl (\<lambda>d kv. dict_set d (fst kv) (snd kv)) [] ms"

text \<open>Reading a value from the tokens: the value and the tokens left. The fuel bounds
  the number of calls; the number of tokens is always enough.\<close>

fun parse_value :: "nat \<Rightarrow> token list \<Rightarrow> (json \<times> token list) option"
  and parse_elements :: "nat \<Rightarrow> token list \<Rightarrow> (json list \<times> token list) option"
  and parse_members :: "nat \<Rightarrow> token list \<Rightarrow> ((pystr \<times> json) list \<times> token list) option" where
  "parse_value 0 ts = None"
| "parse_value (Suc n) [] = None"
| "parse_value (Suc n) (t # ts) =
     (case t of
        TString body \<Rightarrow> map_option (\<lambda>s. (JStr s, ts)) (decode_string body)
      | TAtom a \<Rightarrow> map_option (\<lambda>v. (v, ts)) (parse_atom a)
      | LBracket \<Rightarrow>
          (case ts of
             RBracket # r \<Rightarrow> Some (JArr [], r)
           | _ \<Rightarrow> map_option (\<lambda>(vs, r). (JArr vs, r)) (parse_elements n ts))
      | LBrace \<Rightarrow>
          (case ts of
             RBrace # r \<Rightarrow> Some (JObj [], r)
           | _ \<Rightarrow> map_option (\<lambda>(kvs, r). (JObj (dict_of kvs), r)) (parse_members n ts))
      | _ \<Rightarrow> None)"
| "parse_elements 0 ts = None"
| "parse_elements (Suc n) ts =
     (case parse_value n ts of
        None \<Rightarrow> None
      | Some (v, r) \<Rightarrow>
          (case r of
             Comma # r' \<Rightarrow> map_option (\<lambda>(vs, r''). (v # vs, r'')) (parse_elements n r')
           | RBracket # r' \<Rightarrow> Some ([v], r')
           | _ \<Rightarrow> None))"
| "parse_members 0 ts = None"
| "parse_members (Suc n) ts =
     (case ts of
        TString key # Colon # r \<Rightarrow>
          (case decode_string key of
             None \<Rightarrow> None
           | Some k \<Rightarrow>
               (case parse_value n r of
                  None \<Rightarrow> None
                | Some (v, r1) \<Rightarrow>
                    (case r1 of
                       Comma # r2 \<Rightarrow>
                         map_option (\<lambda>(kvs, r3). ((k, v) # kvs, r3)) (parse_members n r2)
                     | RBrace # r2 \<Rightarrow> Some ([(k, v)], r2)
                     | _ \<Rightarrow> None)))
      | _ \<Rightarrow> None)"

definition parse_tokens :: "token list \<Rightarrow> json option" where
  "parse_tokens ts =
     (case parse_value (length ts) ts of
        Some (v, []) \<Rightarrow> Some v
      | _ \<Rightarrow> None)"

definition json_loads :: "pystr \<Rightarrow> json option" where
  "json_loads s = (case lex s of None \<Rightarrow> None | Some ts \<Rightarrow> parse_tokens ts)"


section \<open>Notions for the proof that repair keeps a text readable\<close>

text \<open>A string body: no quote outside an escape, no backslash left open.\<close>

fun closed :: "pystr \<Rightarrow> bool" where
  "closed [] \<longleftrightarrow> True"
| "closed (c # s) \<longleftrightarrow>
     (if c = 34 then False
      else if c = 92 then (case s of [] \<Rightarrow> False | e # r \<Rightarrow> closed r)
      else closed s)"

text \<open>What the two substitutions of \<open>fix_json_structure\<close> do to the tokens of a text:
  a comma is put between a closing and an opening brace that follow each other, and a
  comma that a closing brace or bracket follows is dropped.\<close>

fun insert_commas :: "token list \<Rightarrow> token list" where
  "insert_commas (RBrace # LBrace # ts) = RBrace # Comma # LBrace # insert_commas ts"
| "insert_commas (t # ts) = t # insert_commas ts"
| "insert_commas [] = []"

fun drop_trailing_commas :: "token list \<Rightarrow> token list" where
  "drop_trailing_commas (Comma # RBrace # ts) = RBrace # drop_trailing_commas ts"
| "drop_trailing_commas (Comma # RBracket # ts) = RBracket # drop_trailing_commas ts"
| "drop_trailing_commas (t # ts) = t # drop_trailing_commas ts"
| "drop_trailing_commas [] = []"

text \<open>The substitutions also change the bodies of strings.\<close>

fun repair_string :: "(pystr \<Rightarrow> pystr) \<Rightarrow> token \<Rightarrow> token" where
  "repair_string f (TString body) = TString (f body)"
| "repair_string f t = t"

text \<open>A token that is not an atom with whitespace in it (Python's whitespace is more
  than JSON's, and the rest of it would be read as part of an atom).\<close>

fun atom_clean :: "token \<Rightarrow> bool" where
  "atom_clean (TAtom a) \<longleftrightarrow> list_all (\<lambda>c. \<not> is_space c) a"
| "atom_clean t \<longleftrightarrow> True"

fun is_obj :: "json \<Rightarrow> bool" where
  "is_obj (JObj kvs) \<longleftrightarrow> True"
| "is_obj v \<longleftrightarrow> False"

text \<open>Two values that differ at most in their strings and in the keys of their objects:
  the same literals and numbers at the same places, arrays of the same length, and objects
  built from as many members, whose values are alike in turn.\<close>

inductive alike :: "json \<Rightarrow> json \<Rightarrow> bool" where
  null: "alike JNull JNull"
| bool: "alike (JBool b) (JBool b)"
| num: "alike (JNum n) (JNum n)"
| float: "alike (JFloat a) (JFloat a)"
| string: "alike (JStr s) (JStr s')"
| array: "list_all2 alike vs vs' \<Longrightarrow> alike (JArr vs) (JArr vs')"
| object: "list_all2 (\<lambda>m m'. alike (snd m) (snd m')) ms ms' \<Longrightarrow>
     alike (JObj (dict_of ms)) (JObj (dict_of ms'))"

text \<open>Reading a text with its commas before a closing brace or bracket ignored; and
  reading it so after the two substitutions have been applied to the body of every
  string.\<close>

definition json_loads_lenient :: "pystr \<Rightarrow> json option" where
  "json_loads_lenient s =
     (case lex s of None \<Rightarrow> None | Some ts \<Rightarrow> parse_tokens (drop_trailing_commas ts))"

definition json_loads_rewritten :: "pystr \<Rightarrow> json option" where
  "json_loads_rewritten s =
     (case lex s of
        None \<Rightarrow> None
      | Some ts \<Rightarrow>
          parse_tokens (map (repair_string (trailing_commas_sub \<circ> missing_commas_sub))
            (drop_trailing_commas ts)))"

text \<open>A text none of whose strings the substitutions change.\<close>

fun kept_string :: "token \<Rightarrow> bool" where
  "kept_string (TString body) \<longleftrightarrow> trailing_commas_sub (missing_commas_sub body) = body"
| "kept_string t \<longleftrightarrow> True"

definition strings_kept :: "pystr \<Rightarrow> bool" where
  "strings_kept s = (case lex s of None \<Rightarrow> False | Some ts \<Rightarrow> list_all kept_string ts)"

text \<open>Tokens a value was read from: they start and end as a value does, no comma is
  missing or trailing among them, and every atom is a literal or a number.\<close>

fun atom_ok :: "token \<Rightarrow> bool" where
  "atom_ok (TAtom a) \<longleftrightarrow> parse_atom a \<noteq> None"
| "atom_ok t \<longleftrightarrow> True"

definition well_formed :: "token list \<Rightarrow> bool" where
  "well_formed c \<longleftrightarrow>
     c \<noteq> [] \<and> insert_commas c = c \<and> drop_trailing_commas c = c \<and> last c \<noteq> Comma \<and>
     hd c \<noteq> RBrace \<and> hd c \<noteq> RBracket \<and> list_all atom_ok c"

text \<open>A closing brace with an opening brace right after it.\<close>

fun adjacent :: "token list \<Rightarrow> bool" where
  "adjacent (RBrace # LBrace # ts) \<longleftrightarrow> True"
| "adjacent (t # ts) \<longleftrightarrow> adjacent ts"
| "adjacent [] \<longleftrightarrow> False"

text \<open>The two texts the specification gives as examples, and an array whose string holds
  a comma before a closing bracket.\<close>

definition unbracketed_example :: pystr where
  "unbracketed_example =
     str ''{\"question\":\"a\",\"answers\":[]},{\"question\":\"b\",\"answers\":[]}''"

definition trailing_comma_example :: pystr where
  "trailing_comma_example = str ''[{\"a\":1},]''"

definition rewritten_string_example :: pystr where
  "rewritten_string_example = str ''[{\"b\":\"1, ]\"},]''"


section \<open>Properties of loading\<close>

lemma validate_loop_eq:
  "validate_loop i es (kept, warns) =
     (kept @ filter validate_json_entry es,
      warns @ map (\<lambda>j. i + j) (filter (\<lambda>j. \<not> validate_json_entry (es ! j)) [0..<length es]))"
proof (induction es arbitrary: i kept warns)
  case Nil
  then show ?case by simp
next
  case (Cons e es)
  have shift: "filter (\<lambda>j. \<not> validate_json_entry ((e # es) ! j)) [0..<Suc (length es)] =
      (if validate_json_entry e then [] else [0]) @
      map Suc (filter (\<lambda>j. \<not> validate_json_entry (es ! j)) [0..<length es])"
  proof -
    have "[0..<Suc (length es)] = 0 # map Suc [0..<length es]"
      by (simp add: upt_conv_Cons map_Suc_upt del: upt_Suc)
    then show ?thesis by (simp add: filter_map comp_def del: upt_Suc)
  qed
  show ?case
    by (simp add: Cons.IH shift comp_def del: upt_Suc)
qed

lemma length_filter_partition:
  "length (filter (\<lambda>j. \<not> P (es ! j)) [0..<length es]) = length es - length (filter P es)"
proof -
  have "filter (\<lambda>j. \<not> P (es ! j)) [0..<length es] = filter ((\<lambda>e. \<not> P e) \<circ> (!) es) [0..<length es]"
    by (simp add: comp_def)
  then have "length (filter (\<lambda>j. \<not> P (es ! j)) [0..<length es]) =
      length (filter (\<lambda>e. \<not> P e) (map ((!) es) [0..<length es]))"
    by (simp add: filter_map)
  also have "\<dots> = length (filter (\<lambda>e. \<not> P e) es)" by (simp add: map_nth)
  also have "\<dots> = length es - length (filter P es)"
    using sum_length_filter_compl [of P es] by simp
  finally show ?thesis .
qed

text \<open>
  C4. Once the repaired text has parsed to an array, loading keeps exactly the elements
  that are objects with a \<open>question\<close> key and an \<open>answers\<close> key holding an array, in
  their order; it prints one warning per dropped element, naming its index, so the
  warnings count the dropped elements; and it fails with the "no valid entries" error
  exactly when no element is kept.
\<close>

theorem load_json_safely_validates:
  assumes "loads (preprocess_file text) = Some (JArr xs)"
  shows "(\<forall>e. validate_json_entry e \<longleftrightarrow>
            (\<exists>kvs. e = JObj kvs \<and> str ''question'' \<in> fst ` set kvs \<and>
                   (\<exists>vs. map_of kvs (str ''answers'') = Some (JArr vs)))) \<and>
         (let kept = filter validate_json_entry xs;
              skipped = filter (\<lambda>i. \<not> validate_json_entry (xs ! i)) [0..<length xs]
          in load_json_safely loads text =
               (if kept = []
                then Inl (ValueError (str ''No valid entries found in the JSON file''))
                else Inr (kept, skipped)) \<and>
             length skipped = length xs - length kept)"
proof -
  have a: "validate_json_entry e \<longleftrightarrow>
            (\<exists>kvs. e = JObj kvs \<and> str ''question'' \<in> fst ` set kvs \<and>
                   (\<exists>vs. map_of kvs (str ''answers'') = Some (JArr vs)))" for e
  proof (cases e)
    case (JObj kvs)
    have "map_of kvs (str ''question'') = None \<longleftrightarrow> str ''question'' \<notin> fst ` set kvs"
      by (rule map_of_eq_None_iff)
    then show ?thesis
      using JObj by (simp add: validate_json_entry_def split: option.splits json.splits)
  qed (simp_all add: validate_json_entry_def)
  have b: "validate_loop 0 xs ([], []) =
      (filter validate_json_entry xs,
       filter (\<lambda>i. \<not> validate_json_entry (xs ! i)) [0..<length xs])"
    by (simp add: validate_loop_eq)
  have c: "load_json_safely loads text =
      (if filter validate_json_entry xs = []
       then Inl (ValueError (str ''No valid entries found in the JSON file''))
       else Inr (filter validate_json_entry xs,
                 filter (\<lambda>i. \<not> validate_json_entry (xs ! i)) [0..<length xs]))"
    unfolding load_json_safely_def using assms by (simp add: b)
  show ?thesis
    using a c length_filter_partition [of validate_json_entry xs]
    by (simp add: Let_def)
qed

theorem load_json_safely_validates_witness:
  "load_json_safely
     (\<lambda>t. Some (JArr [JObj [(str ''question'', JStr (str ''q'')), (str ''answers'', JArr [])],
                         JNum 7,
                         JObj [(str ''question'', JStr (str ''r''))],
                         JObj [(str ''question'', JNull), (str ''answers'', JArr [JStr (str ''a'')])],
                         JObj [(str ''question'', JStr (str ''s'')), (str ''answers'', JStr (str ''a''))]]))
     (str ''[]'') =
   Inr ([JObj [(str ''question'', JStr (str ''q'')), (str ''answers'', JArr [])],
         JObj [(str ''question'', JNull), (str ''answers'', JArr [JStr (str ''a'')])]],
        [1, 2, 4])"
  using load_json_safely_validates
    [of "\<lambda>t. Some (JArr [JObj [(str ''question'', JStr (str ''q'')), (str ''answers'', JArr [])],
                         JNum 7,
                         JObj [(str ''question'', JStr (str ''r''))],
                         JObj [(str ''question'', JNull), (str ''answers'', JArr [JStr (str ''a'')])],
                         JObj [(str ''question'', JStr (str ''s'')), (str ''answers'', JStr (str ''a''))]])"
        "str ''[]''"
        "[JObj [(str ''question'', JStr (str ''q'')), (str ''answers'', JArr [])],
          JNum 7,
          JObj [(str ''question'', JStr (str ''r''))],
          JObj [(str ''question'', JNull), (str ''answers'', JArr [JStr (str ''a'')])],
          JObj [(str ''question'', JStr (str ''s'')), (str ''answers'', JStr (str ''a''))]]"]
  by (simp add: validate_json_entry_def str_def Let_def upt_conv_Cons)

section \<open>Properties of cleaning\<close>

lemma clean_soup_append: "clean_soup (xs @ ys) = clean_soup xs @ clean_soup ys"
  by (simp add: clean_soup_def)

lemma clean_soup_notice: "is_notice attrs \<Longrightarrow> clean_soup [Tag name attrs cs] = []"
  by (simp add: clean_soup_def)

lemma clean_soup_Tag:
  "\<not> is_notice attrs \<Longrightarrow> clean_soup [Tag name attrs cs] =
     (if name \<in> allowed_tags
      then [Tag name (filter (\<lambda>kv. name = str ''a'' \<and> fst kv = str ''href'') attrs) (clean_soup cs)]
      else clean_soup cs)"
  by (simp add: clean_soup_def map_concat)

lemma delete_notice_clean_soup:
  "delete_notice ts ts' \<Longrightarrow> clean_soup ts = clean_soup ts'"
proof (induction rule: delete_notice.induct)
  case (here attrs xs name cs ys)
  have "clean_soup (xs @ [Tag name attrs cs] @ ys) = clean_soup (xs @ ys)"
    using here by (simp only: clean_soup_append clean_soup_notice) simp
  then show ?case by simp
next
  case (below cs cs' xs name attrs ys)
  have "clean_soup [Tag name attrs cs] = clean_soup [Tag name attrs cs']"
    using below.IH by (cases "is_notice attrs") (simp_all add: clean_soup_notice clean_soup_Tag)
  then have "clean_soup (xs @ [Tag name attrs cs] @ ys) = clean_soup (xs @ [Tag name attrs cs'] @ ys)"
    by (simp only: clean_soup_append)
  then show ?case by simp
qed

lemma unwrap_remove_allowed:
  "\<forall>m \<in> set (unwrap_tags (remove_attributes n)). only_allowed m"
proof (induction n)
  case (Tag nm as children)
  have kids: "\<forall>m \<in> set (concat (map unwrap_tags (map remove_attributes children))). only_allowed m"
    using Tag.IH by auto
  show ?case
  proof (cases "nm \<in> allowed_tags")
    case True
    then show ?thesis using kids by simp
  next
    case False
    then show ?thesis using kids by simp
  qed
next
  case (NavigableString k s)
  then show ?case by simp
qed

lemma only_allowed_find_all:
  "only_allowed m \<Longrightarrow> Tag name attrs cs \<in> set (find_all m) \<Longrightarrow>
     name \<in> allowed_tags \<and> (\<forall>kv \<in> set attrs. name = str ''a'' \<and> fst kv = str ''href'')"
proof (induction m)
  case (Tag nm as children)
  from Tag.prems(2) consider
    "Tag name attrs cs = Tag nm as children"
    | c where "c \<in> set children" "Tag name attrs cs \<in> set (find_all c)"
    by auto
  then show ?case
  proof cases
    case 1
    then show ?thesis using Tag.prems(1) by simp
  next
    case 2
    then show ?thesis using Tag.IH [of c] Tag.prems(1) by simp
  qed
next
  case (NavigableString k s)
  then show ?case by simp
qed

lemma clean_soup_tags:
  assumes "Tag name attrs cs \<in> set (concat (map find_all (clean_soup soup)))"
  shows "name \<in> allowed_tags \<and> (\<forall>kv \<in> set attrs. name = str ''a'' \<and> fst kv = str ''href'')"
proof -
  from assms obtain m where m: "m \<in> set (clean_soup soup)" "Tag name attrs cs \<in> set (find_all m)"
    by auto
  from m(1) obtain n where "m \<in> set (unwrap_tags (remove_attributes n))"
    by (auto simp: clean_soup_def)
  then have "only_allowed m" using unwrap_remove_allowed by blast
  then show ?thesis using m(2) by (rule only_allowed_find_all)
qed


lemma href_only_not_notice:
  "\<forall>kv \<in> set attrs. name = str ''a'' \<and> fst kv = str ''href'' \<Longrightarrow> \<not> is_notice attrs"
proof -
  assume a: "\<forall>kv \<in> set attrs. name = str ''a'' \<and> fst kv = str ''href''"
  have "str ''class'' \<noteq> str ''href''" by (simp add: str_def)
  then have "str ''class'' \<notin> fst ` set attrs" using a by auto
  then have "map_of attrs (str ''class'') = None" by (simp add: map_of_eq_None_iff)
  then show ?thesis by (simp add: is_notice_def)
qed

text \<open>
  C7. The output of \<open>clean_html\<close> is the serialisation of the document \<open>clean_soup\<close>
  leaves. For every document (so for the parse of every input string), every tag of
  that document is a \<open>p\<close>, \<open>code\<close> or \<open>a\<close>, it carries no attribute except \<open>href\<close> on an
  \<open>a\<close>, no tag carries the notice class, and deleting any notice element with its
  subtree from the input document changes nothing: nothing in such a subtree reaches the
  output.
\<close>

theorem clean_html_keeps_allowed_markup:
  "clean_html L (JStr s) = strip (collapse_ws (bs_str L (clean_soup (bs_parse L s)))) \<and>
   (\<forall>name attrs cs. Tag name attrs cs \<in> set (concat (map find_all (clean_soup soup))) \<longrightarrow>
      name \<in> {str ''p'', str ''code'', str ''a''} \<and>
      (\<forall>kv \<in> set attrs. name = str ''a'' \<and> fst kv = str ''href'') \<and>
      \<not> is_notice attrs) \<and>
   (\<forall>soup'. delete_notice soup soup' \<longrightarrow> clean_soup soup = clean_soup soup')"
proof -
  have a: "clean_html L (JStr s) = strip (collapse_ws (bs_str L (clean_soup (bs_parse L s))))"
    by (simp add: clean_html_def)
  have b: "name \<in> {str ''p'', str ''code'', str ''a''} \<and>
      (\<forall>kv \<in> set attrs. name = str ''a'' \<and> fst kv = str ''href'') \<and> \<not> is_notice attrs"
    if "Tag name attrs cs \<in> set (concat (map find_all (clean_soup soup)))" for name attrs cs
    using clean_soup_tags [OF that] href_only_not_notice [of attrs name]
    by (simp add: allowed_tags_def)
  have c: "clean_soup soup = clean_soup soup'" if "delete_notice soup soup'" for soup'
    using that by (rule delete_notice_clean_soup)
  show ?thesis using a b c by blast
qed

theorem clean_html_keeps_allowed_markup_witness:
  "delete_notice
     [Tag (str ''div'') [(str ''id'', Single (str ''x''))]
        [NavigableString PlainText (str ''t''),
         Tag (str ''span'') [(str ''class'', Multi [str ''js-post-notice'', str ''m''])]
           [Tag (str ''p'') [] [NavigableString PlainText (str ''ad'')]],
         Tag (str ''a'') [(str ''href'', Single (str ''u'')), (str ''title'', Single (str ''v''))]
           [Tag (str ''b'') [] [NavigableString PlainText (str ''w'')]]]]
     [Tag (str ''div'') [(str ''id'', Single (str ''x''))]
        [NavigableString PlainText (str ''t''),
         Tag (str ''a'') [(str ''href'', Single (str ''u'')), (str ''title'', Single (str ''v''))]
           [Tag (str ''b'') [] [NavigableString PlainText (str ''w'')]]]] \<and>
   clean_soup
     [Tag (str ''div'') [(str ''id'', Single (str ''x''))]
        [NavigableString PlainText (str ''t''),
         Tag (str ''span'') [(str ''class'', Multi [str ''js-post-notice'', str ''m''])]
           [Tag (str ''p'') [] [NavigableString PlainText (str ''ad'')]],
         Tag (str ''a'') [(str ''href'', Single (str ''u'')), (str ''title'', Single (str ''v''))]
           [Tag (str ''b'') [] [NavigableString PlainText (str ''w'')]]]] =
     [NavigableString PlainText (str ''t''),
      Tag (str ''a'') [(str ''href'', Single (str ''u''))] [NavigableString PlainText (str ''w'')]]"
proof -
  let ?span = "Tag (str ''span'') [(str ''class'', Multi [str ''js-post-notice'', str ''m''])]
           [Tag (str ''p'') [] [NavigableString PlainText (str ''ad'')]]"
  let ?a = "Tag (str ''a'') [(str ''href'', Single (str ''u'')), (str ''title'', Single (str ''v''))]
           [Tag (str ''b'') [] [NavigableString PlainText (str ''w'')]]"
  let ?t = "NavigableString PlainText (str ''t'')"
  have n: "is_notice [(str ''class'', Multi [str ''js-post-notice'', str ''m''])]"
    by (simp add: is_notice_def)
  have "delete_notice ([?t] @ ?span # [?a]) ([?t] @ [?a])"
    using n by (rule delete_notice.here)
  then have "delete_notice ([] @ Tag (str ''div'') [(str ''id'', Single (str ''x''))] ([?t] @ ?span # [?a]) # [])
      ([] @ Tag (str ''div'') [(str ''id'', Single (str ''x''))] ([?t] @ [?a]) # [])"
    by (rule delete_notice.below)
  then have d: "delete_notice [Tag (str ''div'') [(str ''id'', Single (str ''x''))] [?t, ?span, ?a]]
      [Tag (str ''div'') [(str ''id'', Single (str ''x''))] [?t, ?a]]"
    by simp
  have e: "clean_soup [Tag (str ''div'') [(str ''id'', Single (str ''x''))] [?t, ?a]] =
      [?t, Tag (str ''a'') [(str ''href'', Single (str ''u''))] [NavigableString PlainText (str ''w'')]]"
    by (simp add: clean_soup_def allowed_tags_def is_notice_def str_def)
  from clean_html_keeps_allowed_markup
    [of _ _ "[Tag (str ''div'') [(str ''id'', Single (str ''x''))] [?t, ?span, ?a]]"] d
  have "clean_soup [Tag (str ''div'') [(str ''id'', Single (str ''x''))] [?t, ?span, ?a]] =
      clean_soup [Tag (str ''div'') [(str ''id'', Single (str ''x''))] [?t, ?a]]"
    by blast
  with d e show ?thesis by simp
qed

section \<open>Properties of hashing and deduplication\<close>

lemma key_neq [simp]:
  "str ''answers'' \<noteq> str ''question''" "str ''question'' \<noteq> str ''answers''"
  by (simp_all add: str_def)

lemma clean_answers_no_question:
  "clean_answers L entry = Inr a \<Longrightarrow> map_of a (str ''question'') = None"
  by (auto simp: clean_answers_def and_then_def split: sum.splits if_splits)

lemma clean_question_obj:
  "clean_question L (JObj kvs) =
     Inr (case map_of kvs (str ''question'') of
            Some (JStr s) \<Rightarrow> [(str ''question'', JStr (clean_html L (JStr s)))]
          | Some (JObj d) \<Rightarrow>
              [(str ''question'',
                JObj [(str ''content'', JStr (clean_html L (dict_get d (str ''content'') (JStr []))))])]
          | _ \<Rightarrow> [])"
  by (simp add: clean_question_def and_then_def split: option.splits json.splits)

lemma process_entry_question:
  assumes "process_entry L (JObj kvs) = Inr p"
  shows "map_of p (str ''question'') =
     (case map_of kvs (str ''question'') of
        Some (JStr s) \<Rightarrow> Some (JStr (clean_html L (JStr s)))
      | Some (JObj d) \<Rightarrow>
          Some (JObj [(str ''content'', JStr (clean_html L (dict_get d (str ''content'') (JStr []))))])
      | _ \<Rightarrow> None)"
proof -
  from assms obtain a where a: "clean_answers L (JObj kvs) = Inr a"
    and p: "p = (case map_of kvs (str ''question'') of
            Some (JStr s) \<Rightarrow> [(str ''question'', JStr (clean_html L (JStr s)))]
          | Some (JObj d) \<Rightarrow>
              [(str ''question'',
                JObj [(str ''content'', JStr (clean_html L (dict_get d (str ''content'') (JStr []))))])]
          | _ \<Rightarrow> []) @ a"
    by (auto simp: process_entry_def clean_question_obj and_then_def split: sum.splits)
  show ?thesis
    unfolding p using clean_answers_no_question [OF a]
    by (simp add: map_add_def split: option.splits json.splits)
qed

lemma hash_entry_question_only:
  "map_of e1 (str ''question'') = map_of e2 (str ''question'') \<Longrightarrow>
     hash_entry L e1 = hash_entry L e2"
  by (simp add: hash_entry_def extract_question_content_def dict_get_def)

lemma map_of_track_duplicate:
  "map_of (track_duplicate d h x) k =
     (if k = h then Some (case map_of d h of None \<Rightarrow> [x] | Some xs \<Rightarrow> xs @ [x])
      else map_of d k)"
proof (cases "map_of d h")
  case None
  then show ?thesis by (simp add: track_duplicate_def map_add_def split: option.splits)
next
  case (Some xs)
  have "map_of (map (\<lambda>kv. if fst kv = h then (fst kv, snd kv @ [x]) else kv) d) k =
      (if k = h then map_option (\<lambda>xs. xs @ [x]) (map_of d k) else map_of d k)"
    by (induction d) auto
  then show ?thesis using Some by (simp add: track_duplicate_def)
qed

lemma process_loop_foldl:
  "process_loop L file_path idx es st = Inr st' \<Longrightarrow>
     st' = foldl (dedup_step L) st (records_from L file_path idx es)"
proof (induction es arbitrary: idx st)
  case Nil
  then show ?case by (simp add: records_from_def)
next
  case (Cons e es)
  obtain c acc where st: "st = (c, acc)" by (cases st)
  from Cons.prems st obtain p where p: "process_entry L e = Inr p"
    by (auto split: sum.splits)
  let ?r = "(idx, file_path, p)"
  have rec: "records_from L file_path idx (e # es) = ?r # records_from L file_path (Suc idx) es"
    by (simp add: records_from_def the_processed_def p)
  have "process_loop L file_path (Suc idx) es (dedup_step L st ?r) = Inr st'"
    using Cons.prems st p
    by (simp add: dedup_step_def record_hash_def record_location_def record_entry_def Let_def
        split: if_splits)
  then have "st' = foldl (dedup_step L) (dedup_step L st ?r) (records_from L file_path (Suc idx) es)"
    by (rule Cons.IH)
  then show ?case by (simp add: rec)
qed

lemma dedup_step_state:
  assumes "dedup_state L seen (hash_set c) (duplicate_indices c) (unique_entries c @ acc)"
    and "dedup_step L (c, acc) r = (c', acc')"
  shows "dedup_state L (seen @ [r]) (hash_set c') (duplicate_indices c') (unique_entries c' @ acc')
     \<and> unique_entries c' = unique_entries c"
proof -
  let ?h = "record_hash L r"
  let ?same = "\<lambda>h. filter (\<lambda>r. record_hash L r = h) seen"
  from assms(1) have hs: "hash_set c = set (map (record_hash L) seen)"
    and kept: "\<And>h. filter (\<lambda>e. entry_hash L e = h) (unique_entries c @ acc) =
          map record_entry (take 1 (?same h))"
    and dups: "\<And>h. map_of (duplicate_indices c) h =
          (if length (?same h) \<le> 1 then None else Some (map record_location (tl (?same h))))"
    by (simp_all add: dedup_state_def)
  have eh: "entry_hash L (record_entry r) = ?h"
    by (simp add: entry_hash_def record_entry_def record_hash_def)
  have mem: "?h \<in> hash_set c \<longleftrightarrow> ?same ?h \<noteq> []"
    unfolding hs filter_empty_conv by (metis (mono_tags, lifting) image_iff set_map)
  show ?thesis
  proof (cases "?h \<in> hash_set c")
    case True
    then have ne: "?same ?h \<noteq> []" using mem by simp
    from True assms(2) have c': "c' = c\<lparr>duplicate_indices :=
        track_duplicate (duplicate_indices c) ?h (record_location r)\<rparr>" and acc': "acc' = acc"
      by (simp_all add: dedup_step_def Let_def)
    have k: "filter (\<lambda>e. entry_hash L e = h) (unique_entries c' @ acc') =
          map record_entry (take 1 (filter (\<lambda>r. record_hash L r = h) (seen @ [r])))" for h
    proof (cases "h = ?h")
      case True
      obtain f rest where "?same ?h = f # rest" using ne by (cases "?same ?h") auto
      then show ?thesis using True kept [of ?h] by (simp add: c' acc')
    next
      case False
      then show ?thesis using kept [of h] by (simp add: c' acc')
    qed
    have d: "map_of (duplicate_indices c') h =
          (if length (filter (\<lambda>r. record_hash L r = h) (seen @ [r])) \<le> 1 then None
           else Some (map record_location (tl (filter (\<lambda>r. record_hash L r = h) (seen @ [r])))))" for h
    proof (cases "h = ?h")
      case True
      then show ?thesis
        using ne by (cases "?same ?h") (auto simp: c' map_of_track_duplicate dups)
    next
      case False
      then show ?thesis by (simp add: c' map_of_track_duplicate dups)
    qed
    have s: "hash_set c' = set (map (record_hash L) (seen @ [r]))"
      using True by (auto simp: c' hs)
    have u: "unique_entries c' = unique_entries c" by (simp add: c')
    show ?thesis
      unfolding dedup_state_def by (intro conjI allI) (rule s k d u)+
  next
    case False
    then have em: "?same ?h = []" using mem by simp
    from False assms(2) have c': "c' = c\<lparr>hash_set := insert ?h (hash_set c)\<rparr>"
      and acc': "acc' = acc @ [record_entry r]"
      by (simp_all add: dedup_step_def Let_def)
    have k: "filter (\<lambda>e. entry_hash L e = h) (unique_entries c' @ acc') =
          map record_entry (take 1 (filter (\<lambda>r. record_hash L r = h) (seen @ [r])))" for h
    proof (cases "h = ?h")
      case True
      have "filter (\<lambda>e. entry_hash L e = ?h) (unique_entries c @ acc) = []"
        using kept [of ?h] em by simp
      then show ?thesis using True em by (simp add: c' acc' eh)
    next
      case False
      then show ?thesis using kept [of h] by (simp add: c' acc' eh)
    qed
    have d: "map_of (duplicate_indices c') h =
          (if length (filter (\<lambda>r. record_hash L r = h) (seen @ [r])) \<le> 1 then None
           else Some (map record_location (tl (filter (\<lambda>r. record_hash L r = h) (seen @ [r])))))" for h
    proof (cases "h = ?h")
      case True
      then show ?thesis using em dups [of ?h] by (simp add: c')
    next
      case False
      then show ?thesis using dups [of h] by (simp add: c')
    qed
    have s: "hash_set c' = set (map (record_hash L) (seen @ [r]))"
      by (auto simp: c' hs)
    have u: "unique_entries c' = unique_entries c" by (simp add: c')
    show ?thesis
      unfolding dedup_state_def by (intro conjI allI) (rule s k d u)+
  qed
qed

lemma foldl_dedup_state:
  assumes "dedup_state L seen (hash_set c) (duplicate_indices c) (unique_entries c @ acc)"
    and "foldl (dedup_step L) (c, acc) rs = (c', acc')"
  shows "dedup_state L (seen @ rs) (hash_set c') (duplicate_indices c') (unique_entries c' @ acc')
     \<and> unique_entries c' = unique_entries c"
  using assms
proof (induction rs arbitrary: seen c acc)
  case Nil
  then show ?case by simp
next
  case (Cons r rs)
  obtain c1 acc1 where s1: "dedup_step L (c, acc) r = (c1, acc1)"
    by (cases "dedup_step L (c, acc) r")
  from dedup_step_state [OF Cons.prems(1) s1]
  have i1: "dedup_state L (seen @ [r]) (hash_set c1) (duplicate_indices c1) (unique_entries c1 @ acc1)"
    and u1: "unique_entries c1 = unique_entries c" by blast+
  from Cons.prems(2) s1 have "foldl (dedup_step L) (c1, acc1) rs = (c', acc')" by simp
  from Cons.IH [OF i1 this]
  have "dedup_state L ((seen @ [r]) @ rs) (hash_set c') (duplicate_indices c') (unique_entries c' @ acc')"
    and "unique_entries c' = unique_entries c1" by blast+
  then show ?case using u1 by simp
qed

lemma process_file_state:
  assumes "dedup_state L seen (hash_set c) (duplicate_indices c) (unique_entries c)"
    and "process_file L read_json c file_path = Inr (c', entries)"
  shows "dedup_state L (seen @ file_records L read_json file_path)
           (hash_set c') (duplicate_indices c') (unique_entries c @ entries)
         \<and> unique_entries c' = unique_entries c"
proof -
  from assms(2) obtain data es where d: "read_json file_path = Inr data" "py_iter data = Inr es"
    and l: "process_loop L file_path 0 es (c, []) = Inr (c', entries)"
    by (auto simp: process_file_def and_then_def split: sum.splits)
  have fr: "file_records L read_json file_path = records_from L file_path 0 es"
    by (simp add: file_records_def d)
  from process_loop_foldl [OF l]
  have f: "foldl (dedup_step L) (c, []) (records_from L file_path 0 es) = (c', entries)" by simp
  from assms(1) have "dedup_state L seen (hash_set c) (duplicate_indices c) (unique_entries c @ [])"
    by simp
  from foldl_dedup_state [OF this f] show ?thesis unfolding fr by metis
qed

lemma combine_loop_state:
  assumes "dedup_state L seen (hash_set c) (duplicate_indices c) (unique_entries c)"
    and "combine_loop L read_json ps (c, tot, counts) = Inr (c', tot', counts')"
  shows "dedup_state L (seen @ all_records L read_json ps)
           (hash_set c') (duplicate_indices c') (unique_entries c')
         \<and> tot' + length (unique_entries c) = tot + length (unique_entries c')"
  using assms
proof (induction ps arbitrary: seen c tot counts)
  case Nil
  then show ?case by (simp add: all_records_def)
next
  case (Cons p ps)
  from Cons.prems(2) obtain c1 entries where
    pf: "process_file L read_json c p = Inr (c1, entries)"
    and rest: "combine_loop L read_json ps
        (c1\<lparr>unique_entries := unique_entries c1 @ entries\<rparr>, tot + length entries,
         dict_set counts p (length entries)) = Inr (c', tot', counts')"
    by (auto split: sum.splits)
  let ?c2 = "c1\<lparr>unique_entries := unique_entries c1 @ entries\<rparr>"
  from process_file_state [OF Cons.prems(1) pf]
  have s1: "dedup_state L (seen @ file_records L read_json p)
           (hash_set c1) (duplicate_indices c1) (unique_entries c @ entries)"
    and u1: "unique_entries c1 = unique_entries c" by blast+
  have s2: "dedup_state L (seen @ file_records L read_json p)
           (hash_set ?c2) (duplicate_indices ?c2) (unique_entries ?c2)"
    using s1 u1 by simp
  from Cons.IH [OF s2 rest]
  have "dedup_state L ((seen @ file_records L read_json p) @ all_records L read_json ps)
           (hash_set c') (duplicate_indices c') (unique_entries c')"
    and "tot' + length (unique_entries ?c2) = tot + length entries + length (unique_entries c')"
    by blast+
  then show ?case using u1 by (simp add: all_records_def)
qed

lemma combine_files_state:
  assumes "combine_files L read_json new_combiner file_paths = Inr (stats, c)"
  shows "dedup_state L (all_records L read_json file_paths)
           (hash_set c) (duplicate_report stats) (unique_entries c)
         \<and> total_original_entries stats = length (unique_entries c)
         \<and> unique_entries_count stats = length (unique_entries c)
         \<and> duplicates_removed stats = 0"
proof -
  from assms obtain tot counts where
    l: "combine_loop L read_json file_paths (new_combiner, 0, []) = Inr (c, tot, counts)"
    and st: "stats = \<lparr>original_file_counts = counts, total_original_entries = tot,
                unique_entries_count = length (unique_entries c),
                duplicates_removed = int tot - int (length (unique_entries c)),
                duplicate_report = duplicate_indices c\<rparr>"
    by (auto simp: combine_files_def split: sum.splits)
  have "dedup_state L [] (hash_set new_combiner) (duplicate_indices new_combiner)
      (unique_entries new_combiner)"
    by (simp add: dedup_state_def new_combiner_def)
  from combine_loop_state [OF this l]
  have "dedup_state L (all_records L read_json file_paths)
           (hash_set c) (duplicate_indices c) (unique_entries c)"
    and "tot = length (unique_entries c)"
    by (simp_all add: new_combiner_def)
  then show ?thesis by (simp add: st)
qed

lemma process_loop_all_processed:
  "process_loop L file_path idx es st = Inr st' \<Longrightarrow> e \<in> set es \<Longrightarrow>
     \<exists>p. process_entry L e = Inr p"
proof (induction es arbitrary: idx st)
  case Nil
  then show ?case by simp
next
  case (Cons x xs)
  obtain c acc where st: "st = (c, acc)" by (cases st)
  from Cons.prems(1) st obtain p where p: "process_entry L x = Inr p"
    by (auto split: sum.splits)
  from Cons.prems(1) st p obtain st1 where
    "process_loop L file_path (Suc idx) xs st1 = Inr st'"
    by (auto simp: Let_def split: if_splits)
  then have "\<exists>p. process_entry L e = Inr p" if "e \<in> set xs"
    using Cons.IH [of "Suc idx" st1] that by blast
  with Cons.prems(2) p show ?case by auto
qed

lemma foldl_dedup_step_out:
  "foldl (dedup_step L) st rs = st' \<Longrightarrow>
     set (snd st') \<subseteq> set (snd st) \<union> record_entry ` set rs"
proof (induction rs arbitrary: st)
  case Nil
  then show ?case by auto
next
  case (Cons r rs)
  have "set (snd (dedup_step L st r)) \<subseteq> set (snd st) \<union> {record_entry r}"
    by (auto simp: dedup_step_def Let_def)
  moreover have "set (snd st') \<subseteq> set (snd (dedup_step L st r)) \<union> record_entry ` set rs"
    using Cons.IH [of "dedup_step L st r"] Cons.prems by simp
  ultimately show ?case by auto
qed

lemma process_file_out:
  assumes "process_file L read_json c file_path = Inr (c', out)" and "r \<in> set out"
  shows "\<exists>data es e p. read_json file_path = Inr data \<and> py_iter data = Inr es \<and> e \<in> set es \<and>
           process_entry L e = Inr p \<and> r = JObj p"
proof -
  from assms(1) obtain data es where d: "read_json file_path = Inr data" "py_iter data = Inr es"
    and l: "process_loop L file_path 0 es (c, []) = Inr (c', out)"
    by (auto simp: process_file_def and_then_def split: sum.splits)
  from process_loop_foldl [OF l]
  have "foldl (dedup_step L) (c, []) (records_from L file_path 0 es) = (c', out)" by simp
  from foldl_dedup_step_out [OF this] assms(2)
  have "r \<in> record_entry ` set (records_from L file_path 0 es)" by auto
  then obtain ie where "ie \<in> set (enumerate 0 es)" and r0: "r = JObj (the_processed L (snd ie))"
    by (auto simp: records_from_def record_entry_def)
  then have "fst ie < length es" "es ! fst ie = snd ie" by (simp_all add: in_set_enumerate_eq)
  then have "snd ie \<in> set es" using nth_mem [of "fst ie" es] by simp
  with r0 obtain e where e: "e \<in> set es" and r: "r = JObj (the_processed L e)" by blast
  from process_loop_all_processed [OF l e] obtain p where p: "process_entry L e = Inr p" ..
  then have "r = JObj p" using r by (simp add: the_processed_def)
  with d e p show ?thesis by blast
qed

text \<open>
  C3 (amended). Every record \<open>process_file\<close> returns is the processed form of an entry
  of the file. When the entry's question is a bare string, the record's question is the
  cleaned string; when it is a wrapper object with a string \<open>content\<close>, the record's
  question is again a wrapper object, holding the cleaned string under \<open>content\<close>.
\<close>

theorem process_file_question_shape:
  assumes "process_file L read_json c file_path = Inr (c', out)" and "r \<in> set out"
  shows "\<exists>data es e p.
     read_json file_path = Inr data \<and> py_iter data = Inr es \<and> e \<in> set es \<and>
     process_entry L e = Inr p \<and> r = JObj p \<and>
     (\<forall>kvs s. e = JObj kvs \<and> map_of kvs (str ''question'') = Some (JStr s) \<longrightarrow>
        map_of p (str ''question'') = Some (JStr (clean_html L (JStr s)))) \<and>
     (\<forall>kvs d s. e = JObj kvs \<and> map_of kvs (str ''question'') = Some (JObj d) \<and>
          map_of d (str ''content'') = Some (JStr s) \<longrightarrow>
        map_of p (str ''question'') =
          Some (JObj [(str ''content'', JStr (clean_html L (JStr s)))]))"
proof -
  from process_file_out [OF assms] obtain data es e p where
    a: "read_json file_path = Inr data" "py_iter data = Inr es" "e \<in> set es"
      "process_entry L e = Inr p" "r = JObj p"
    by blast
  have b: "map_of p (str ''question'') = Some (JStr (clean_html L (JStr s)))"
    if "e = JObj kvs \<and> map_of kvs (str ''question'') = Some (JStr s)" for kvs s
    using process_entry_question [of L kvs p] a(4) that by simp
  have c: "map_of p (str ''question'') =
          Some (JObj [(str ''content'', JStr (clean_html L (JStr s)))])"
    if "e = JObj kvs \<and> map_of kvs (str ''question'') = Some (JObj d) \<and>
          map_of d (str ''content'') = Some (JStr s)" for kvs d s
    using process_entry_question [of L kvs p] a(4) that by (simp add: dict_get_def)
  from a b c show ?thesis by blast
qed

lemma eval_keys [simp]:
  "str ''content'' \<noteq> str ''question''" "str ''content'' \<noteq> str ''answers''"
  "str ''question'' \<noteq> str ''content''" "str ''answers'' \<noteq> str ''content''"
  by (simp_all add: str_def)

lemma process_entry_record:
  "process_entry L (JObj [(str ''question'', q), (str ''answers'', JArr as)]) =
     Inr ((case q of
             JStr s \<Rightarrow> [(str ''question'', JStr (clean_html L q))]
           | JObj d \<Rightarrow> [(str ''question'',
                 JObj [(str ''content'', JStr (clean_html L (dict_get d (str ''content'') (JStr []))))])]
           | _ \<Rightarrow> []) @
          [(str ''answers'', JArr (map (\<lambda>answer. JStr (clean_html L answer)) (filter is_str as)))])"
  by (simp add: process_entry_def clean_question_def clean_answers_def and_then_def
      split: json.splits)

lemma process_file_single:
  "process_entry L e = Inr p \<Longrightarrow>
   process_file L (\<lambda>path. Inr (JArr [e])) new_combiner file_path =
     Inr (new_combiner\<lparr>hash_set := {hash_entry L p}\<rparr>, [JObj p])"
  by (simp add: process_file_def and_then_def new_combiner_def Let_def)

text \<open>
  C3 as stated fails: a record whose question is the wrapper object keeps the wrapper
  shape in the deduplicated output, whatever the library does.
\<close>

theorem wrapper_question_stays_wrapped:
  "\<forall>L. \<exists>c'. process_file L
       (\<lambda>path. Inr (JArr [JObj [(str ''question'', JObj [(str ''content'', JStr (str ''<p>What is X?</p>''))]),
                                (str ''answers'', JArr [JStr (str ''<p>X is Y</p>'')])]]))
       new_combiner (str ''a.json'') =
     Inr (c', [JObj [(str ''question'',
                      JObj [(str ''content'', JStr (clean_html L (JStr (str ''<p>What is X?</p>''))))]),
                     (str ''answers'', JArr [JStr (clean_html L (JStr (str ''<p>X is Y</p>'')))])]])"
  by (simp add: process_file_single process_entry_record dict_get_def)

text \<open>
  C8. The hash of an entry depends on its \<open>question\<close> item only: two processed entries
  with the same question have the same hash, and so have the processed forms of two raw
  records with the same question field, whatever their answers are.
\<close>

theorem hash_entry_ignores_answers:
  "(map_of e1 (str ''question'') = map_of e2 (str ''question'') \<longrightarrow>
      hash_entry L e1 = hash_entry L e2) \<and>
   (map_of r1 (str ''question'') = map_of r2 (str ''question'') \<and>
    process_entry L (JObj r1) = Inr p1 \<and> process_entry L (JObj r2) = Inr p2 \<longrightarrow>
      hash_entry L p1 = hash_entry L p2)"
proof -
  have "hash_entry L p1 = hash_entry L p2"
    if "map_of r1 (str ''question'') = map_of r2 (str ''question'')"
      and "process_entry L (JObj r1) = Inr p1" and "process_entry L (JObj r2) = Inr p2"
  proof -
    have "map_of p1 (str ''question'') = map_of p2 (str ''question'')"
      using process_entry_question [OF that(2)] process_entry_question [OF that(3)] that(1)
      by simp
    then show ?thesis by (rule hash_entry_question_only)
  qed
  then show ?thesis using hash_entry_question_only by blast
qed

theorem hash_entry_ignores_answers_witness:
  "\<forall>L. hash_entry L [(str ''question'', JStr (str ''<p>What is X?</p>'')),
                      (str ''answers'', JArr [JStr (str ''a''), JStr (str ''b'')])] =
        hash_entry L [(str ''question'', JStr (str ''<p>What is X?</p>'')),
                      (str ''answers'', JArr [JStr (str ''b''), JStr (str ''a''), JStr (str ''a'')])] \<and>
        hash_entry L (the_processed L (JObj [(str ''question'', JStr (str ''<p>What is X?</p>'')),
                      (str ''answers'', JArr [JStr (str ''a''), JStr (str ''b'')])])) =
        hash_entry L (the_processed L (JObj [(str ''question'', JStr (str ''<p>What is X?</p>''))]))"
proof (intro allI conjI)
  fix L
  show "hash_entry L [(str ''question'', JStr (str ''<p>What is X?</p>'')),
                      (str ''answers'', JArr [JStr (str ''a''), JStr (str ''b'')])] =
        hash_entry L [(str ''question'', JStr (str ''<p>What is X?</p>'')),
                      (str ''answers'', JArr [JStr (str ''b''), JStr (str ''a''), JStr (str ''a'')])]"
    by (rule hash_entry_ignores_answers [THEN conjunct1, THEN mp]) simp
next
  fix L
  let ?r1 = "[(str ''question'', JStr (str ''<p>What is X?</p>'')),
              (str ''answers'', JArr [JStr (str ''a''), JStr (str ''b'')])]"
  let ?r2 = "[(str ''question'', JStr (str ''<p>What is X?</p>''))]"
  obtain p1 where p1: "process_entry L (JObj ?r1) = Inr p1"
    by (simp add: process_entry_record)
  obtain p2 where p2: "process_entry L (JObj ?r2) = Inr p2"
    by (simp add: process_entry_def clean_question_obj clean_answers_def and_then_def)
  have "hash_entry L p1 = hash_entry L p2"
    by (rule hash_entry_ignores_answers [THEN conjunct2, THEN mp, of ?r1 ?r2]) (simp add: p1 p2)
  then show "hash_entry L (the_processed L (JObj ?r1)) = hash_entry L (the_processed L (JObj ?r2))"
    by (simp add: the_processed_def p1 p2)
qed

theorem process_file_question_shape_witness:
  "\<forall>L. (\<exists>c' p. process_file L
            (\<lambda>path. Inr (JArr [JObj [(str ''question'', JObj [(str ''content'', JStr (str ''<p>Q</p>''))]),
                                     (str ''answers'', JArr [])]]))
            new_combiner (str ''a.json'') = Inr (c', [JObj p]) \<and>
          map_of p (str ''question'') =
            Some (JObj [(str ''content'', JStr (clean_html L (JStr (str ''<p>Q</p>''))))])) \<and>
       (\<exists>c' p. process_file L
            (\<lambda>path. Inr (JArr [JObj [(str ''question'', JStr (str ''<p>Q</p>'')),
                                     (str ''answers'', JArr [])]]))
            new_combiner (str ''a.json'') = Inr (c', [JObj p]) \<and>
          map_of p (str ''question'') = Some (JStr (clean_html L (JStr (str ''<p>Q</p>'')))))"
proof (intro allI conjI)
  fix L
  let ?kvs = "[(str ''question'', JObj [(str ''content'', JStr (str ''<p>Q</p>''))]),
               (str ''answers'', JArr [])]"
  let ?rj = "\<lambda>path :: pystr. (Inr (JArr [JObj ?kvs]) :: error + json)"
  obtain p where p: "process_entry L (JObj ?kvs) = Inr p" by (simp add: process_entry_record)
  then have run: "process_file L ?rj new_combiner (str ''a.json'') =
      Inr (new_combiner\<lparr>hash_set := {hash_entry L p}\<rparr>, [JObj p])"
    by (rule process_file_single)
  from process_file_question_shape [OF run, of "JObj p"]
  obtain data es e p' where
    a: "?rj (str ''a.json'') = Inr data" "py_iter data = Inr es" "e \<in> set es" "JObj p = JObj p'"
    and w: "\<forall>kvs d s. e = JObj kvs \<and> map_of kvs (str ''question'') = Some (JObj d) \<and>
          map_of d (str ''content'') = Some (JStr s) \<longrightarrow>
        map_of p' (str ''question'') =
          Some (JObj [(str ''content'', JStr (clean_html L (JStr s)))])"
    by auto
  from a have e: "e = JObj ?kvs" and pp: "p' = p" by auto
  have "map_of p (str ''question'') =
          Some (JObj [(str ''content'', JStr (clean_html L (JStr (str ''<p>Q</p>''))))])"
    using w [rule_format, of ?kvs "[(str ''content'', JStr (str ''<p>Q</p>''))]" "str ''<p>Q</p>''"]
      e pp by simp
  with run show "\<exists>c' p. process_file L ?rj new_combiner (str ''a.json'') = Inr (c', [JObj p]) \<and>
          map_of p (str ''question'') =
            Some (JObj [(str ''content'', JStr (clean_html L (JStr (str ''<p>Q</p>''))))])"
    by blast
next
  fix L
  let ?kvs = "[(str ''question'', JStr (str ''<p>Q</p>'')), (str ''answers'', JArr [])]"
  let ?rj = "\<lambda>path :: pystr. (Inr (JArr [JObj ?kvs]) :: error + json)"
  obtain p where p: "process_entry L (JObj ?kvs) = Inr p" by (simp add: process_entry_record)
  then have run: "process_file L ?rj new_combiner (str ''a.json'') =
      Inr (new_combiner\<lparr>hash_set := {hash_entry L p}\<rparr>, [JObj p])"
    by (rule process_file_single)
  from process_file_question_shape [OF run, of "JObj p"]
  obtain data es e p' where
    a: "?rj (str ''a.json'') = Inr data" "py_iter data = Inr es" "e \<in> set es" "JObj p = JObj p'"
    and w: "\<forall>kvs s. e = JObj kvs \<and> map_of kvs (str ''question'') = Some (JStr s) \<longrightarrow>
        map_of p' (str ''question'') = Some (JStr (clean_html L (JStr s)))"
    by auto
  from a have e: "e = JObj ?kvs" and pp: "p' = p" by auto
  have "map_of p (str ''question'') = Some (JStr (clean_html L (JStr (str ''<p>Q</p>''))))"
    using w [rule_format, of ?kvs "str ''<p>Q</p>''"] e pp by simp
  with run show "\<exists>c' p. process_file L ?rj new_combiner (str ''a.json'') = Inr (c', [JObj p]) \<and>
          map_of p (str ''question'') = Some (JStr (clean_html L (JStr (str ''<p>Q</p>''))))"
    by blast
qed

lemma process_file_one:
  assumes "read_json file_path = Inr (JArr [e])" and "process_entry L e = Inr p"
  shows "process_file L read_json c file_path =
     Inr (if hash_entry L p \<in> hash_set c
          then (c\<lparr>duplicate_indices :=
                    track_duplicate (duplicate_indices c) (hash_entry L p) (0, file_path)\<rparr>, [])
          else (c\<lparr>hash_set := insert (hash_entry L p) (hash_set c)\<rparr>, [JObj p]))"
  using assms by (simp add: process_file_def and_then_def Let_def)

text \<open>
  C1. What the code reports: on a fresh combiner, \<open>total_original_entries\<close> is the
  number of entries kept, not the number read, so \<open>duplicates_removed\<close> is always 0.
  On the two files of the example the count reported for the second file is 0 when its
  record is a duplicate, and \<open>duplicates_removed\<close> is 0 where the claim says 1.
\<close>

theorem combine_files_counts_kept_entries:
  assumes "combine_files L read_json new_combiner file_paths = Inr (stats, c)"
  shows "total_original_entries stats = length (unique_entries c) \<and>
         unique_entries_count stats = length (unique_entries c) \<and>
         duplicates_removed stats = 0"
  using combine_files_state [OF assms] by simp

theorem combine_files_counts_kept_entries_witness:
  "\<forall>L. \<exists>stats c.
     combine_files L example_files new_combiner [str ''first.json'', str ''second.json''] =
       Inr (stats, c) \<and>
     duplicates_removed stats = 0 \<and>
     total_original_entries stats = length (unique_entries c) \<and>
     original_file_counts stats =
       [(str ''first.json'', 1),
        (str ''second.json'',
         if hash_entry L (the_processed L
               (JObj [(str ''question'', JStr (str ''<p>What   is  X?</p>  '')),
                      (str ''answers'', JArr [JStr (str ''<p>X is Z</p>'')])])) =
            hash_entry L (the_processed L
               (JObj [(str ''question'', JStr (str ''<p>What is X?</p>'')),
                      (str ''answers'', JArr [JStr (str ''<p>X is Y</p>'')])]))
         then 0 else 1)]"
proof
  fix L
  let ?r1 = "JObj [(str ''question'', JStr (str ''<p>What is X?</p>'')),
                   (str ''answers'', JArr [JStr (str ''<p>X is Y</p>'')])]"
  let ?r2 = "JObj [(str ''question'', JStr (str ''<p>What   is  X?</p>  '')),
                   (str ''answers'', JArr [JStr (str ''<p>X is Z</p>'')])]"
  have ne: "str ''second.json'' \<noteq> str ''first.json''" by (simp add: str_def)
  have f1: "example_files (str ''first.json'') = Inr (JArr [?r1])"
    by (simp add: example_files_def)
  have f2: "example_files (str ''second.json'') = Inr (JArr [?r2])"
    using ne by (simp add: example_files_def)
  obtain p1 where p1: "process_entry L ?r1 = Inr p1" by (simp add: process_entry_record)
  obtain p2 where p2: "process_entry L ?r2 = Inr p2" by (simp add: process_entry_record)
  have t1: "the_processed L ?r1 = p1" and t2: "the_processed L ?r2 = p2"
    by (simp_all add: the_processed_def p1 p2)
  have "\<exists>stats c.
      combine_files L example_files new_combiner [str ''first.json'', str ''second.json''] =
        Inr (stats, c) \<and>
      original_file_counts stats =
       [(str ''first.json'', 1),
        (str ''second.json'', if hash_entry L p2 = hash_entry L p1 then 0 else 1)]"
    using ne
    by (cases "hash_entry L p2 = hash_entry L p1")
      (simp_all add: combine_files_def
        process_file_one [of example_files "str ''first.json''", OF f1 p1]
        process_file_one [of example_files "str ''second.json''", OF f2 p2]
        new_combiner_def dict_set_def)
  then obtain stats c where run:
    "combine_files L example_files new_combiner [str ''first.json'', str ''second.json''] =
       Inr (stats, c)"
    and counts: "original_file_counts stats =
       [(str ''first.json'', 1),
        (str ''second.json'', if hash_entry L p2 = hash_entry L p1 then 0 else 1)]"
    by blast
  from combine_files_counts_kept_entries [OF run]
  have "duplicates_removed stats = 0" "total_original_entries stats = length (unique_entries c)"
    by simp_all
  with run counts show "\<exists>stats c.
     combine_files L example_files new_combiner [str ''first.json'', str ''second.json''] =
       Inr (stats, c) \<and>
     duplicates_removed stats = 0 \<and>
     total_original_entries stats = length (unique_entries c) \<and>
     original_file_counts stats =
       [(str ''first.json'', 1),
        (str ''second.json'',
         if hash_entry L (the_processed L ?r2) = hash_entry L (the_processed L ?r1)
         then 0 else 1)]"
    unfolding t1 t2 by blast
qed

lemma clean_html_empty:
  "empty_document L \<Longrightarrow> clean_html L (JStr []) = []"
  by (simp add: empty_document_def clean_html_def clean_soup_def strip_def)

lemma clean_question_content_empty:
  "empty_document L \<Longrightarrow> clean_question_content L (JStr []) = []"
  by (simp add: clean_question_content_def clean_html_empty Let_def)
    (simp add: empty_document_def strip_def)

lemma extract_no_question:
  "empty_document L \<Longrightarrow> map_of p (str ''question'') = None \<Longrightarrow>
     extract_question_content L p = []"
  by (simp add: extract_question_content_def dict_get_def clean_question_content_empty)

lemma extract_empty_wrapper:
  "empty_document L \<Longrightarrow>
     map_of p (str ''question'') = Some (JObj [(str ''content'', JStr [])]) \<Longrightarrow>
     extract_question_content L p = []"
  by (simp add: extract_question_content_def dict_get_def clean_question_content_empty)

lemma questionless_extract:
  assumes "empty_document L" and "questionless e" and "process_entry L e = Inr p"
  shows "extract_question_content L p = []"
proof -
  from assms(2) obtain kvs where e: "e = JObj kvs"
    by (cases e) (simp_all add: questionless_def)
  note q = process_entry_question [OF assms(3) [unfolded e]]
  show ?thesis
  proof (cases "map_of kvs (str ''question'')")
    case None
    then show ?thesis using q assms(1) by (simp add: extract_no_question)
  next
    case (Some v)
    show ?thesis
    proof (cases v)
      case (JStr s)
      then show ?thesis using assms(2) Some e by (simp add: questionless_def)
    next
      case (JObj d)
      then have "map_of d (str ''content'') = None"
        using assms(2) Some e by (simp add: questionless_def)
      then have "map_of p (str ''question'') = Some (JObj [(str ''content'', JStr [])])"
        using q Some JObj assms(1) by (simp add: dict_get_def clean_html_empty)
      then show ?thesis using assms(1) by (simp add: extract_empty_wrapper)
    qed (use q Some assms(1) in \<open>simp_all add: extract_no_question\<close>)
  qed
qed

lemma questionless_record_hash:
  assumes "empty_document L" and "questionless e"
  shows "hash_entry L (the_processed L e) = md5_hexdigest L []"
proof (cases "process_entry L e")
  case (Inl err)
  then show ?thesis
    using assms(1) by (simp add: the_processed_def hash_entry_def extract_no_question)
next
  case (Inr p)
  then show ?thesis
    using questionless_extract [OF assms Inr] by (simp add: the_processed_def hash_entry_def)
qed

lemma record_in_all_records:
  assumes "path \<in> set file_paths" and "read_json path = Inr data" and "py_iter data = Inr es"
    and "idx < length es"
  shows "(idx, path, the_processed L (es ! idx)) \<in> set (all_records L read_json file_paths)"
proof -
  have "(idx, es ! idx) \<in> set (enumerate 0 es)"
    using assms(4) by (simp add: in_set_enumerate_eq)
  then have "(idx, path, the_processed L (es ! idx)) \<in> set (records_from L path 0 es)"
    unfolding records_from_def by force
  then have "(idx, path, the_processed L (es ! idx)) \<in> set (file_records L read_json path)"
    using assms(2,3) by (simp add: file_records_def)
  then show ?thesis using assms(1) by (auto simp: all_records_def)
qed

text \<open>
  C10. With a library for which the empty markup is the empty document: a record whose
  question is absent, or is neither a string nor a dict with a \<open>content\<close> key, has the
  empty canonical text and the digest of the empty string. In a run of \<open>combine_files\<close>
  on a fresh combiner, let \<open>same\<close> be the records of the whole input sequence with that
  digest, in reading order: every question-less record is among them, only the first of
  them is kept in the output, and the report lists under that digest the locations of
  all the later ones, in order.
\<close>

theorem questionless_records_share_one_digest:
  assumes "empty_document L"
  shows "(\<forall>e p. questionless e \<and> process_entry L e = Inr p \<longrightarrow>
            extract_question_content L p = [] \<and> hash_entry L p = md5_hexdigest L []) \<and>
         (combine_files L read_json new_combiner file_paths = Inr (stats, c) \<longrightarrow>
            (let same = filter (\<lambda>r. record_hash L r = md5_hexdigest L [])
                          (all_records L read_json file_paths)
             in (\<forall>path data es idx.
                   path \<in> set file_paths \<and> read_json path = Inr data \<and>
                   py_iter data = Inr es \<and> idx < length es \<and> questionless (es ! idx) \<longrightarrow>
                     (idx, path, the_processed L (es ! idx)) \<in> set same) \<and>
                filter (\<lambda>e. entry_hash L e = md5_hexdigest L []) (unique_entries c) =
                  map record_entry (take 1 same) \<and>
                map_of (duplicate_report stats) (md5_hexdigest L []) =
                  (if length same \<le> 1 then None
                   else Some (map record_location (tl same)))))"
proof -
  have a: "extract_question_content L p = [] \<and> hash_entry L p = md5_hexdigest L []"
    if "questionless e \<and> process_entry L e = Inr p" for e p
    using questionless_extract [OF assms, of e p] that by (simp add: hash_entry_def)
  have m: "(idx, path, the_processed L (es ! idx)) \<in>
        set (filter (\<lambda>r. record_hash L r = md5_hexdigest L []) (all_records L read_json file_paths))"
    if "path \<in> set file_paths \<and> read_json path = Inr data \<and>
        py_iter data = Inr es \<and> idx < length es \<and> questionless (es ! idx)" for path data es idx
    using record_in_all_records [of path file_paths read_json data es idx L] that
      questionless_record_hash [OF assms, of "es ! idx"]
    by (simp add: record_hash_def)
  have b: "filter (\<lambda>e. entry_hash L e = h) (unique_entries c) =
        map record_entry (take 1 (filter (\<lambda>r. record_hash L r = h) (all_records L read_json file_paths)))
      \<and> map_of (duplicate_report stats) h =
        (if length (filter (\<lambda>r. record_hash L r = h) (all_records L read_json file_paths)) \<le> 1
         then None
         else Some (map record_location
                 (tl (filter (\<lambda>r. record_hash L r = h) (all_records L read_json file_paths)))))"
    if "combine_files L read_json new_combiner file_paths = Inr (stats, c)" for h
    using combine_files_state [OF that] by (simp add: dedup_state_def)
  show ?thesis
    unfolding Let_def using a m b by blast
qed

lemma plain_empty: "empty_document plain_library"
  by (simp add: empty_document_def plain_library_def)

lemma clean_html_plain: "clean_html plain_library (JStr s) = strip (collapse_ws s)"
  by (simp add: clean_html_def plain_library_def clean_soup_def strip_def)

lemma process_entry_answers_only:
  "process_entry L (JObj [(str ''answers'', JArr as)]) =
     Inr [(str ''answers'', JArr (map (\<lambda>answer. JStr (clean_html L answer)) (filter is_str as)))]"
  by (simp add: process_entry_def clean_question_def clean_answers_def and_then_def)

lemma get_text_parse_plain: "bs_get_text plain_library (bs_parse plain_library s) = s"
  by (simp add: plain_library_def)

lemma md5_plain: "md5_hexdigest plain_library s = s"
  by (simp add: plain_library_def)

lemma hash_plain_question:
  "hash_entry plain_library ((str ''question'', JStr s) # rest) =
     str_lower plain_library (strip (collapse_ws (strip (collapse_ws s))))"
  by (simp add: hash_entry_def extract_question_content_def dict_get_def
      clean_question_content_def clean_html_plain get_text_parse_plain md5_plain Let_def)

lemma strip_example: "strip (collapse_ws (str ''<p>Q</p>'')) = str ''<p>Q</p>''"
  by (simp add: str_def strip_def is_space_def)

lemma strip_example2: "strip (collapse_ws (str ''<p>a</p>'')) = str ''<p>a</p>''"
  by (simp add: str_def strip_def is_space_def)

lemma lower_example: "str_lower plain_library (str ''<p>Q</p>'') = str ''<p>q</p>''"
  by (simp add: str_def plain_library_def)


theorem questionless_records_share_one_digest_witness:
  "empty_document plain_library \<and>
   (\<exists>stats c.
      combine_files plain_library questionless_files new_combiner
        [str ''qa.json'', str ''qb.json''] = Inr (stats, c) \<and>
      unique_entries c =
        [JObj [(str ''answers'', JArr [JStr (str ''<p>a</p>'')])],
         JObj [(str ''question'', JStr (str ''<p>Q</p>'')), (str ''answers'', JArr [])]] \<and>
      duplicate_report stats =
        [(md5_hexdigest plain_library [],
          [(1, str ''qa.json''), (2, str ''qa.json''), (0, str ''qb.json'')])])"
proof -
  let ?L = plain_library
  let ?e1 = "JObj [(str ''answers'', JArr [JStr (str ''<p>a</p>'')])]"
  let ?e2 = "JObj [(str ''question'', JNum 5), (str ''answers'', JArr [])]"
  let ?e3 = "JObj [(str ''question'', JObj [(str ''body'', JStr (str ''x''))]),
                   (str ''answers'', JArr [])]"
  let ?e4 = "JObj [(str ''question'', JStr (str ''<p>Q</p>'')), (str ''answers'', JArr [])]"
  let ?e5 = "JObj [(str ''answers'', JArr [])]"
  let ?p1 = "[(str ''answers'', JArr [JStr (str ''<p>a</p>'')])]"
  let ?p2 = "[(str ''answers'', JArr [])]"
  let ?p3 = "[(str ''question'', JObj [(str ''content'', JStr [])]), (str ''answers'', JArr [])]"
  let ?p4 = "[(str ''question'', JStr (str ''<p>Q</p>'')), (str ''answers'', JArr [])]"
  have ne: "str ''qb.json'' \<noteq> str ''qa.json''" by (simp add: str_def)
  have body: "str ''body'' \<noteq> str ''content''" by (simp add: str_def)
  have fa: "questionless_files (str ''qa.json'') = Inr (JArr [?e1, ?e2, ?e3, ?e4])"
    by (simp add: questionless_files_def)
  have fb: "questionless_files (str ''qb.json'') = Inr (JArr [?e5])"
    using ne by (simp add: questionless_files_def)
  have p1: "process_entry ?L ?e1 = Inr ?p1"
    by (simp add: process_entry_answers_only clean_html_plain strip_example2)
  have p2: "process_entry ?L ?e2 = Inr ?p2" by (simp add: process_entry_record)
  have p3: "process_entry ?L ?e3 = Inr ?p3"
    using body by (simp add: process_entry_record dict_get_def clean_html_plain strip_def)
  have p4: "process_entry ?L ?e4 = Inr ?p4"
    by (simp add: process_entry_record clean_html_plain strip_example)
  have p5: "process_entry ?L ?e5 = Inr ?p2" by (simp add: process_entry_answers_only)
  have q1: "questionless ?e1" and q2: "questionless ?e2" and q3: "questionless ?e3"
    and q5: "questionless ?e5"
    using body by (simp_all add: questionless_def)
  note digest = questionless_records_share_one_digest [OF plain_empty, THEN conjunct1, rule_format]
  have h1: "hash_entry ?L ?p1 = md5_hexdigest ?L []" using digest [of ?e1 ?p1] q1 p1 by blast
  have h2: "hash_entry ?L ?p2 = md5_hexdigest ?L []" using digest [of ?e2 ?p2] q2 p2 by blast
  have h3: "hash_entry ?L ?p3 = md5_hexdigest ?L []" using digest [of ?e3 ?p3] q3 p3 by blast
  have h4: "hash_entry ?L ?p4 = str ''<p>q</p>''"
    by (simp add: hash_plain_question strip_example lower_example)
  have h4': "str ''<p>q</p>'' \<noteq> md5_hexdigest ?L []" by (simp add: md5_plain str_def)
  have run1: "process_file ?L questionless_files new_combiner (str ''qa.json'') =
      Inr (\<lparr>duplicate_indices =
              [(md5_hexdigest ?L [], [(Suc 0, str ''qa.json''), (2, str ''qa.json'')])],
            unique_entries = [],
            hash_set = {str ''<p>q</p>'', md5_hexdigest ?L []}\<rparr>,
           [JObj ?p1, JObj ?p4])"
    using h4'
    by (simp add: process_file_def and_then_def fa p1 p2 p3 p4 h1 h2 h3 h4 Let_def
        new_combiner_def track_duplicate_def)
  have run2: "process_file ?L questionless_files
      \<lparr>duplicate_indices =
              [(md5_hexdigest ?L [], [(Suc 0, str ''qa.json''), (2, str ''qa.json'')])],
            unique_entries = [JObj ?p1, JObj ?p4],
            hash_set = {str ''<p>q</p>'', md5_hexdigest ?L []}\<rparr> (str ''qb.json'') =
      Inr (\<lparr>duplicate_indices =
              [(md5_hexdigest ?L [],
                [(Suc 0, str ''qa.json''), (2, str ''qa.json''), (0, str ''qb.json'')])],
            unique_entries = [JObj ?p1, JObj ?p4],
            hash_set = {str ''<p>q</p>'', md5_hexdigest ?L []}\<rparr>,
           [])"
    by (simp add: process_file_def and_then_def fb p5 h2 Let_def track_duplicate_def)
  have "\<exists>stats c.
      combine_files ?L questionless_files new_combiner
        [str ''qa.json'', str ''qb.json''] = Inr (stats, c) \<and>
      unique_entries c = [JObj ?p1, JObj ?p4] \<and>
      duplicate_report stats =
        [(md5_hexdigest ?L [],
          [(1, str ''qa.json''), (2, str ''qa.json''), (0, str ''qb.json'')])]"
    by (simp add: combine_files_def run1 run2)
  with plain_empty show ?thesis by blast
qed

section \<open>Properties of the code tokenizer\<close>

lemma ident_char_non_space: "ident_char c \<Longrightarrow> non_space c"
  by (auto simp: ident_char_def ident_start_def non_space_def is_space_def)

lemma takeWhile_ident_non_space:
  "takeWhile ident_char (takeWhile non_space s) = takeWhile ident_char s"
  by (induction s) (auto simp: ident_char_non_space)

lemma dropWhile_ident_split:
  "dropWhile ident_char s = dropWhile ident_char (takeWhile non_space s) @ dropWhile non_space s"
  by (induction s) (auto simp: ident_char_non_space)

lemma split_words_run:
  assumes "r \<noteq> []" and "list_all non_space r"
  shows "split_words (r @ dropWhile non_space s) = r # split_words (dropWhile non_space s)"
proof -
  obtain d r' where r: "r = d # r'" using assms(1) by (cases r) auto
  have all: "list_all non_space r'" and d: "non_space d" using assms(2) r by simp_all
  have rest: "takeWhile non_space (dropWhile non_space s) = []"
    by (metis (full_types) takeWhile_eq_Nil_iff dropWhile_eq_Nil_conv hd_dropWhile list.collapse list.set_sel(1) list.sel(1) takeWhile.simps(1))
  have t: "takeWhile non_space (r' @ dropWhile non_space s) = r'"
    using all rest by (induction r') auto
  have dr: "dropWhile non_space (r' @ dropWhile non_space s) = dropWhile non_space s"
    using all by (induction r') auto
  show ?thesis using d by (simp add: r t dr)
qed

lemma code_tokens_run:
  assumes "r \<noteq> []" and "list_all non_space r" and "\<not> ident_start (hd r)"
  shows "code_tokens (r @ dropWhile non_space s) = r # code_tokens (dropWhile non_space s)"
proof -
  obtain d r' where r: "r = d # r'" using assms(1) by (cases r) auto
  have all: "list_all non_space r'" and d: "non_space d" "\<not> ident_start d"
    using assms(2,3) r by simp_all
  have rest: "takeWhile non_space (dropWhile non_space s) = []"
    by (metis (full_types) takeWhile_eq_Nil_iff dropWhile_eq_Nil_conv hd_dropWhile list.collapse list.set_sel(1) list.sel(1) takeWhile.simps(1))
  have t: "takeWhile non_space (r' @ dropWhile non_space s) = r'"
    using all rest by (induction r') auto
  have dr: "dropWhile non_space (r' @ dropWhile non_space s) = dropWhile non_space s"
    using all by (induction r') auto
  show ?thesis using d by (simp add: r t dr)
qed


lemma ident_start_char: "ident_start c \<Longrightarrow> ident_char c"
  by (simp add: ident_char_def)

lemma code_tokens_words: "code_tokens s = concat (map word_tokens (split_words s))"
proof (induction s rule: code_tokens.induct)
  case 1
  then show ?case by simp
next
  case (2 c s)
  let ?rest = "dropWhile non_space s"
  let ?r = "dropWhile ident_char (takeWhile non_space s)"
  show ?case
  proof (cases "ident_start c")
    case True
    then have ns: "non_space c" by (simp add: ident_char_non_space ident_start_char)
    have IH: "code_tokens (dropWhile ident_char s) =
        concat (map word_tokens (split_words (dropWhile ident_char s)))"
      using "2.IH"(1) True by simp
    have split: "dropWhile ident_char s = ?r @ ?rest" by (rule dropWhile_ident_split)
    have w: "word_tokens (c # takeWhile non_space s) =
        (c # takeWhile ident_char s) # (if ?r = [] then [] else [?r])"
      using True by (simp add: word_tokens_def takeWhile_ident_non_space)
    have tail: "code_tokens (dropWhile ident_char s) =
        (if ?r = [] then [] else [?r]) @ concat (map word_tokens (split_words ?rest))"
    proof (cases "?r = []")
      case True
      from split True have e: "dropWhile ident_char s = ?rest" by simp
      have i: "(if ?r = [] then [] else [?r]) = []" using True by simp
      show ?thesis unfolding i using IH [unfolded e] by (simp add: e)
    next
      case False
      have all: "list_all non_space ?r"
        by (metis (mono_tags, lifting) list_all_iff set_dropWhileD set_takeWhileD)
      have "\<not> ident_char (hd ?r)" using False by (rule hd_dropWhile)
      then have hd: "\<not> ident_start (hd ?r)" using ident_start_char by blast
      have "word_tokens ?r = [?r]"
        using False hd by (cases ?r) (simp_all add: word_tokens_def)
      then show ?thesis
        using IH split False split_words_run [OF False all, of s] by simp
    qed
    show ?thesis using True ns w tail by simp
  next
    case False
    show ?thesis
    proof (cases "non_space c")
      case True
      have "word_tokens (c # takeWhile non_space s) = [c # takeWhile non_space s]"
        using False by (simp add: word_tokens_def)
      then show ?thesis using "2.IH"(2) False True by simp
    next
      case ns: False
      then show ?thesis using "2.IH"(3) False by simp
    qed
  qed
qed

lemma code_tokens_shape:
  "t \<in> set (code_tokens s) \<Longrightarrow>
     t \<noteq> [] \<and> list_all non_space t \<and> (is_identifier t \<or> \<not> ident_start (hd t))"
proof (induction s rule: code_tokens.induct)
  case 1
  then show ?case by simp
next
  case (2 c s)
  show ?case
  proof (cases "ident_start c")
    case True
    have all: "list_all ident_char (takeWhile ident_char s)"
      by (simp add: list_all_iff) (meson set_takeWhileD)
    then have "list_all non_space (takeWhile ident_char s)"
      by (simp add: list_all_iff ident_char_non_space)
    then have here: "list_all non_space (c # takeWhile ident_char s) \<and>
        is_identifier (c # takeWhile ident_char s)"
      using True all by (simp add: is_identifier_def ident_char_non_space ident_start_char)
    from "2.prems" True consider "t = c # takeWhile ident_char s"
      | "t \<in> set (code_tokens (dropWhile ident_char s))" by auto
    then show ?thesis
    proof cases
      case 1
      then show ?thesis using here by simp
    next
      case 2
      then show ?thesis using "2.IH"(1) True by simp
    qed
  next
    case False
    show ?thesis
    proof (cases "non_space c")
      case True
      have "list_all non_space (takeWhile non_space s)"
        by (simp add: list_all_iff) (meson set_takeWhileD)
      then have here: "list_all non_space (c # takeWhile non_space s)" using True by simp
      from "2.prems" True False consider "t = c # takeWhile non_space s"
        | "t \<in> set (code_tokens (dropWhile non_space s))" by auto
      then show ?thesis
      proof cases
        case 1
        then show ?thesis using here False by simp
      next
        case 2
        then show ?thesis using "2.IH"(2) True False by simp
      qed
    next
      case ns: False
      then show ?thesis using "2.IH"(3) "2.prems" False by simp
    qed
  qed
qed

lemma filter_non_space_takeWhile:
  "filter non_space (takeWhile ident_char s) = takeWhile ident_char s"
  by (induction s) (auto simp: ident_char_non_space)

lemma concat_code_tokens: "concat (code_tokens s) = filter non_space s"
proof (induction s rule: code_tokens.induct)
  case 1
  then show ?case by simp
next
  case (2 c s)
  show ?case
  proof (cases "ident_start c")
    case True
    then have ns: "non_space c" by (simp add: ident_char_non_space ident_start_char)
    have "filter non_space s =
        filter non_space (takeWhile ident_char s) @ filter non_space (dropWhile ident_char s)"
      by (metis filter_append takeWhile_dropWhile_id)
    then show ?thesis
      using "2.IH"(1) True ns by (simp add: filter_non_space_takeWhile)
  next
    case False
    show ?thesis
    proof (cases "non_space c")
      case True
      have "filter non_space s =
          filter non_space (takeWhile non_space s) @ filter non_space (dropWhile non_space s)"
        by (metis filter_append takeWhile_dropWhile_id)
      moreover have "filter non_space (takeWhile non_space s) = takeWhile non_space s"
        by (induction s) auto
      ultimately show ?thesis using "2.IH"(2) True False by simp
    next
      case ns: False
      then show ?thesis using "2.IH"(3) False by simp
    qed
  qed
qed

text \<open>
  C2 (amended). The tokenizer cuts the input at whitespace; a word that starts with a
  letter or an underscore gives its longest prefix matching
  \<open>[A-Za-z_][A-Za-z0-9_]*\<close> and, if anything is left, the whole rest as one token; any
  other word is one token. So every token is non-empty, has no whitespace, and is an
  identifier or a run that does not start with a letter or underscore; the tokens
  together are the characters of the input that are not whitespace, in order.
\<close>

theorem code_tokens_identifier_or_run:
  "code_analyzer L doc = code_tokens (str_lower L doc) \<and>
   code_tokens s = concat (map word_tokens (split_words s)) \<and>
   (\<forall>t \<in> set (code_tokens s).
      t \<noteq> [] \<and> list_all non_space t \<and> (is_identifier t \<or> \<not> ident_start (hd t))) \<and>
   concat (code_tokens s) = filter non_space s"
  using code_tokens_words [of s] code_tokens_shape [of _ s] concat_code_tokens [of s]
  by (simp add: code_analyzer_def)

text \<open>
  C2 as stated fails: the second alternative of the pattern is \<open>\S+\<close>, so a run of
  punctuation is one token, and it takes along what follows it up to the next whitespace.
\<close>

theorem punctuation_run_is_one_token:
  "code_tokens (str ''a==b'') = [str ''a'', str ''==b''] \<and>
   code_tokens (str ''x >= 10'') = [str ''x'', str ''>='', str ''10''] \<and>
   \<not> is_identifier (str ''>='') \<and> length (str ''>='') \<noteq> 1"
  by (simp add: str_def ident_start_def ident_char_def non_space_def is_space_def
      is_identifier_def)

theorem code_tokens_identifier_or_run_witness:
  "code_tokens (str ''foo.bar  = x1 == 42;'') =
     [str ''foo'', str ''.bar'', str ''='', str ''x1'', str ''=='', str ''42;''] \<and>
   split_words (str ''foo.bar  = x1 == 42;'') =
     [str ''foo.bar'', str ''='', str ''x1'', str ''=='', str ''42;''] \<and>
   list_all (\<lambda>t. t \<noteq> [] \<and> list_all non_space t \<and> (is_identifier t \<or> \<not> ident_start (hd t)))
     [str ''foo'', str ''.bar'', str ''='', str ''x1'', str ''=='', str ''42;'']"
proof -
  have w: "split_words (str ''foo.bar  = x1 == 42;'') =
     [str ''foo.bar'', str ''='', str ''x1'', str ''=='', str ''42;'']"
    by (simp add: str_def non_space_def is_space_def)
  have t: "concat (map word_tokens [str ''foo.bar'', str ''='', str ''x1'', str ''=='', str ''42;'']) =
     [str ''foo'', str ''.bar'', str ''='', str ''x1'', str ''=='', str ''42;'']"
    by (simp add: str_def word_tokens_def ident_start_def ident_char_def)
  note main = code_tokens_identifier_or_run [of _ _ "str ''foo.bar  = x1 == 42;''"]
  from main w t have
    c: "code_tokens (str ''foo.bar  = x1 == 42;'') =
      [str ''foo'', str ''.bar'', str ''='', str ''x1'', str ''=='', str ''42;'']"
    and a: "\<forall>t \<in> set (code_tokens (str ''foo.bar  = x1 == 42;'')).
      t \<noteq> [] \<and> list_all non_space t \<and> (is_identifier t \<or> \<not> ident_start (hd t))"
    by simp_all
  from a have "list_all (\<lambda>t. t \<noteq> [] \<and> list_all non_space t \<and>
        (is_identifier t \<or> \<not> ident_start (hd t)))
      (code_tokens (str ''foo.bar  = x1 == 42;''))"
    by (simp only: list_all_iff)
  with c w show ?thesis by simp
qed

section \<open>Properties of the vocabulary pipeline\<close>

lemma unescape_json_min_word_freq:
  "unescape_json (self\<lparr>min_word_freq := m\<rparr>) = unescape_json self"
  by (rule ext) (simp add: unescape_json_def)

lemma clean_text_min_word_freq:
  "clean_text K (self\<lparr>min_word_freq := m\<rparr>) = clean_text K self"
  unfolding clean_text_def decode_html_def unescape_json_min_word_freq by (rule refl)

lemma preprocess_code_min_word_freq:
  "preprocess_code K (self\<lparr>min_word_freq := m\<rparr>) = preprocess_code K self"
  by (rule ext) (simp add: preprocess_code_def unescape_json_min_word_freq)

lemma preprocess_text_min_word_freq:
  "preprocess_text L (self\<lparr>min_word_freq := m\<rparr>) = preprocess_text L self"
  by (rule ext) (simp add: preprocess_text_def unescape_json_min_word_freq)

lemma extract_min_word_freq:
  "extract_code_and_text L K (self\<lparr>min_word_freq := m\<rparr>) = extract_code_and_text L K self"
  by (rule ext) (simp add: extract_code_and_text_def)

lemma preprocess_entry_min_word_freq:
  "preprocess_entry L K (self\<lparr>min_word_freq := m\<rparr>) = preprocess_entry L K self"
  unfolding preprocess_entry_def extract_min_word_freq clean_text_min_word_freq
    preprocess_code_min_word_freq preprocess_text_min_word_freq
  by (rule refl)

lemma create_vocabulary_min_word_freq:
  "create_vocabulary K (self\<lparr>min_word_freq := m\<rparr>) processed_data =
     (case create_vocabulary K self processed_data of
        Inl e \<Rightarrow> Inl e
      | Inr self' \<Rightarrow> Inr (self'\<lparr>min_word_freq := m\<rparr>))"
  by (simp add: create_vocabulary_def and_then_def split: sum.splits prod.splits)

lemma transform_min_word_freq:
  "transform_to_bag_of_words_data K (self\<lparr>min_word_freq := m\<rparr>) =
     transform_to_bag_of_words_data K self"
  by (rule ext) (simp add: transform_to_bag_of_words_data_def)

lemma preprocess_entries_min_word_freq:
  "preprocess_entries L K (self\<lparr>min_word_freq := m\<rparr>) data =
     (case preprocess_entries L K self data of
        Inl e \<Rightarrow> Inl e
      | Inr (dataset, self') \<Rightarrow> Inr (dataset, self'\<lparr>min_word_freq := m\<rparr>))"
proof -
  let ?pd = "all_or_error (map (\<lambda>entry. case entry of
                                     JObj kvs \<Rightarrow> preprocess_entry L K self kvs
                                   | _ \<Rightarrow> Inl TypeError) data)"
  show ?thesis
  proof (cases ?pd)
    case (Inl e)
    then show ?thesis
      unfolding preprocess_entries_def preprocess_entry_min_word_freq
      by (simp add: and_then_def)
  next
    case pd: (Inr processed_data)
    show ?thesis
    proof (cases "create_vocabulary K self processed_data")
      case (Inl e)
      then show ?thesis
        unfolding preprocess_entries_def preprocess_entry_min_word_freq
        by (simp add: pd and_then_def create_vocabulary_min_word_freq)
    next
      case (Inr self')
      then show ?thesis
        unfolding preprocess_entries_def preprocess_entry_min_word_freq
        by (simp add: pd and_then_def create_vocabulary_min_word_freq transform_min_word_freq
            split: sum.splits)
    qed
  qed
qed

text \<open>
  C9. \<open>min_word_freq\<close> is stored and never read: two runs on the same entries whose
  objects differ only in \<open>min_word_freq\<close> give the same bag-of-words dataset and the same
  two vocabularies (or raise the same error); the vectorisers are built from
  \<open>max_vocab_size\<close> alone.
\<close>

theorem min_word_freq_has_no_effect:
  "run_output (preprocess_entries L K (self\<lparr>min_word_freq := m\<rparr>) data) =
     run_output (preprocess_entries L K self data) \<and>
   run_output (preprocess_entries L K (init m1 max_size) data) =
     run_output (preprocess_entries L K (init m2 max_size) data)"
proof -
  have a: "run_output (preprocess_entries L K (self\<lparr>min_word_freq := m\<rparr>) data) =
     run_output (preprocess_entries L K self data)" for self m
    by (simp add: preprocess_entries_min_word_freq run_output_def split: sum.splits)
  have "init m1 max_size = (init m2 max_size)\<lparr>min_word_freq := m1\<rparr>"
    by (simp add: init_def)
  then show ?thesis using a by metis
qed

section \<open>Cleaning a cleaned document\<close>

lemma only_allowed_fixed:
  "only_allowed n \<Longrightarrow>
     decompose_notices n = [n] \<and> remove_attributes n = n \<and> unwrap_tags n = [n]"
proof (induction n)
  case (Tag name attrs children)
  have kids: "\<forall>c \<in> set children.
      decompose_notices c = [c] \<and> remove_attributes c = c \<and> unwrap_tags c = [c]"
    using Tag by simp
  have d: "concat (map decompose_notices children) = children"
    using kids by (induction children) simp_all
  have r: "map remove_attributes children = children"
    using kids by (induction children) simp_all
  have u: "concat (map unwrap_tags children) = children"
    using kids by (induction children) simp_all
  have n: "\<not> is_notice attrs"
    using Tag.prems href_only_not_notice [of attrs name] by simp
  have f: "filter (\<lambda>kv. name = str ''a'' \<and> fst kv = str ''href'') attrs = attrs"
    using Tag.prems by (simp add: filter_id_conv)
  show ?case using Tag.prems n f d r u by simp
next
  case (NavigableString k s)
  then show ?case by simp
qed

lemma clean_soup_only_allowed: "\<forall>m \<in> set (clean_soup soup). only_allowed m"
  using unwrap_remove_allowed by (auto simp: clean_soup_def)

lemma clean_soup_fixed:
  "\<forall>m \<in> set soup. only_allowed m \<Longrightarrow> clean_soup soup = soup"
proof (induction soup)
  case Nil
  then show ?case by (simp add: clean_soup_def)
next
  case (Cons n soup)
  have "clean_soup [n] = [n]"
    using Cons.prems only_allowed_fixed [of n] by (simp add: clean_soup_def)
  moreover have "clean_soup soup = soup" using Cons by simp
  ultimately show ?case using clean_soup_append [of "[n]" soup] by simp
qed

lemma clean_soup_idempotent: "clean_soup (clean_soup soup) = clean_soup soup"
  using clean_soup_fixed [OF clean_soup_only_allowed] .


section \<open>Repairs and quotes\<close>

lemma quote_not_space [simp]: "\<not> is_space 34"
  by (simp add: is_space_def)

lemma dropWhile_space_quote:
  "dropWhile is_space (s @ 34 # b) =
     (if list_all is_space s then 34 # b else dropWhile is_space s @ 34 # b)"
  by (induction s) auto

lemma takeWhile_space_quote:
  "takeWhile is_space (s @ 34 # b) = takeWhile is_space s"
  by (induction s) auto

lemma dropWhile_space_all: "list_all is_space s \<Longrightarrow> dropWhile is_space s = []"
  by (induction s) auto

lemma dropWhile_space_not_all: "\<not> list_all is_space s \<Longrightarrow> dropWhile is_space s \<noteq> []"
  by (induction s) auto

lemma missing_commas_quote:
  "missing_commas_sub (a @ 34 # b) = missing_commas_sub a @ 34 # missing_commas_sub b"
proof (induction a rule: missing_commas_sub.induct)
  case 1
  then show ?case by simp
next
  case (2 c s)
  show ?case
  proof (cases "c = 125")
    case False
    then show ?thesis using "2.IH"(4) by simp
  next
    case True
    show ?thesis
    proof (cases "dropWhile is_space s")
      case Nil
      then have "list_all is_space s"
        using dropWhile_space_not_all by blast
      then show ?thesis
        using True Nil "2.IH"(1)
        by (simp add: dropWhile_space_quote del: dropWhile_eq_Nil_conv)
    next
      case (Cons d r)
      then have na: "\<not> list_all is_space s"
        using dropWhile_space_all by fastforce
      show ?thesis
      proof (cases "d = 123")
        case d: True
        then show ?thesis
          using True Cons na "2.IH"(2) by (simp add: dropWhile_space_quote)
      next
        case d: False
        then show ?thesis
          using True Cons na "2.IH"(3) by (simp add: dropWhile_space_quote)
      qed
    qed
  qed
qed

lemma trailing_commas_quote:
  "trailing_commas_sub (a @ 34 # b) = trailing_commas_sub a @ 34 # trailing_commas_sub b"
proof (induction a rule: trailing_commas_sub.induct)
  case 1
  then show ?case by simp
next
  case (2 c s)
  show ?case
  proof (cases "c = 44")
    case False
    then show ?thesis using "2.IH"(4) by simp
  next
    case True
    show ?thesis
    proof (cases "dropWhile is_space s")
      case Nil
      then have "list_all is_space s"
        using dropWhile_space_not_all by blast
      then show ?thesis
        using True Nil "2.IH"(1)
        by (simp add: dropWhile_space_quote del: dropWhile_eq_Nil_conv)
    next
      case (Cons d r)
      then have na: "\<not> list_all is_space s"
        using dropWhile_space_all by fastforce
      show ?thesis
      proof (cases "d = 125 \<or> d = 93")
        case d: True
        then show ?thesis
          using True Cons na "2.IH"(2)
          by (simp add: dropWhile_space_quote takeWhile_space_quote)
      next
        case d: False
        then show ?thesis
          using True Cons na "2.IH"(3) by (simp add: dropWhile_space_quote)
      qed
    qed
  qed
qed

lemma string_end_closed:
  "string_end s = Some (body, rest) \<Longrightarrow> s = body @ 34 # rest \<and> closed body"
proof (induction s arbitrary: body rest rule: string_end.induct)
  case 1
  then show ?case by simp
next
  case (2 c s)
  show ?case
  proof (cases "c = 34")
    case True
    then show ?thesis using "2.prems" by simp
  next
    case nq: False
    show ?thesis
    proof (cases "c = 92")
      case True
      then obtain e r where s: "s = e # r" using "2.prems" nq by (cases s) auto
      with True nq "2.prems" obtain b where b: "string_end r = Some (b, rest)" "body = c # e # b"
        by (auto split: option.splits)
      from "2.IH"(1) [OF nq True s b(1)] show ?thesis using True s b(2) by simp
    next
      case False
      with nq "2.prems" obtain b where b: "string_end s = Some (b, rest)" "body = c # b"
        by (auto split: option.splits)
      from "2.IH"(2) [OF nq False b(1)] show ?thesis using False nq b(2) by simp
    qed
  qed
qed

lemma closed_string_end:
  "closed body \<Longrightarrow> string_end (body @ 34 # rest) = Some (body, rest)"
proof (induction body rule: closed.induct)
  case 1
  then show ?case by simp
next
  case (2 c s)
  show ?case
  proof (cases "c = 92")
    case True
    then obtain e r where s: "s = e # r" using "2.prems" by (cases s) auto
    have nq: "c \<noteq> 34" using True by simp
    have "closed r" using "2.prems" True s by simp
    from "2.IH"(1) [OF nq True s this] show ?thesis using True s by simp
  next
    case False
    have nq: "c \<noteq> 34" using "2.prems" by (auto split: if_splits)
    have "closed s" using "2.prems" False nq by simp
    from "2.IH"(2) [OF nq False this] show ?thesis using False nq by simp
  qed
qed

lemma space_plain: "is_space c \<Longrightarrow> c \<noteq> 34 \<and> c \<noteq> 92"
  by (auto simp: is_space_def)

lemma closed_plain: "c \<noteq> 34 \<Longrightarrow> c \<noteq> 92 \<Longrightarrow> closed (c # s) = closed s"
  by simp

lemma closed_spaces: "list_all is_space w \<Longrightarrow> closed (w @ x) = closed x"
  by (induction w) (auto dest: space_plain)

lemma split_spaces: "s = takeWhile is_space s @ dropWhile is_space s"
  by simp

lemma closed_after_spaces:
  assumes "closed s" and "dropWhile is_space s = d # r" and "d \<noteq> 34" and "d \<noteq> 92"
  shows "closed r"
proof -
  have "list_all is_space (takeWhile is_space s)"
    by (simp add: list_all_iff) (meson set_takeWhileD)
  then have "closed (takeWhile is_space s @ d # r) = closed (d # r)" by (rule closed_spaces)
  moreover have "takeWhile is_space s @ d # r = s" using assms(2) split_spaces [of s] by simp
  ultimately show ?thesis using assms(1,3,4) by simp
qed

lemma closed_missing_commas: "closed b \<Longrightarrow> closed (missing_commas_sub b)"
proof (induction b rule: length_induct)
  case (1 b)
  note IH = "1.IH" [rule_format]
  show ?case
  proof (cases b)
    case Nil
    then show ?thesis by simp
  next
    case (Cons c s)
    have nq: "c \<noteq> 34" using "1.prems" Cons by (auto split: if_splits)
    show ?thesis
    proof (cases "c = 92")
      case True
      then obtain e r where s: "s = e # r" using "1.prems" Cons by (cases s) auto
      have cr: "closed r" using "1.prems" Cons True s by simp
      show ?thesis
      proof (cases "e = 125")
        case e: False
        have "closed (missing_commas_sub r)" using IH [of r] cr Cons s by simp
        then show ?thesis using Cons True s e by simp
      next
        case e: True
        show ?thesis
        proof (cases "dropWhile is_space r")
          case Nil
          have "closed (missing_commas_sub r)" using IH [of r] cr Cons s by simp
          then show ?thesis using Cons True s e Nil by (simp del: dropWhile_eq_Nil_conv)
        next
          case d: (Cons d r')
          show ?thesis
          proof (cases "d = 123")
            case False
            have "closed (missing_commas_sub r)" using IH [of r] cr Cons s by simp
            then show ?thesis using Cons True s e d False by simp
          next
            case m: True
            have "closed r'" using closed_after_spaces [OF cr d] m by simp
            moreover have "length r' < length b"
              using Cons s length_dropWhile_le [of is_space r] d by simp
            ultimately have "closed (missing_commas_sub r')" using IH by blast
            then show ?thesis using Cons True s e d m by simp
          qed
        qed
      qed
    next
      case np: False
      have cs: "closed s" using "1.prems" Cons np nq by simp
      have rec: "closed (missing_commas_sub s)" using IH [of s] cs Cons by simp
      show ?thesis
      proof (cases "c = 125")
        case False
        then show ?thesis using Cons np nq rec by simp
      next
        case True
        show ?thesis
        proof (cases "dropWhile is_space s")
          case Nil
          then show ?thesis using Cons True rec by (simp del: dropWhile_eq_Nil_conv)
        next
          case d: (Cons d r')
          show ?thesis
          proof (cases "d = 123")
            case False
            then show ?thesis using Cons True d rec by simp
          next
            case m: True
            have "closed r'" using closed_after_spaces [OF cs d] m by simp
            moreover have "length r' < length b"
              using Cons length_dropWhile_le [of is_space s] d by simp
            ultimately have "closed (missing_commas_sub r')" using IH by blast
            then show ?thesis using Cons True d m by simp
          qed
        qed
      qed
    qed
  qed
qed

lemma closed_plain_list:
  "\<forall>c \<in> set p. c \<noteq> 34 \<and> c \<noteq> 92 \<Longrightarrow> closed (p @ y) = closed y"
  by (induction p) auto

lemma spaces_closer_plain:
  assumes "d = 125 \<or> d = 93"
  shows "\<forall>c \<in> set (takeWhile is_space s @ [d]). c \<noteq> 34 \<and> c \<noteq> 92"
  using assms by (auto dest: set_takeWhileD space_plain)

lemma closed_escape_list:
  assumes "p \<noteq> []" and "\<forall>c \<in> set p. c \<noteq> 34 \<and> c \<noteq> 92"
  shows "closed (92 # p @ y) = closed y"
proof -
  obtain x p' where p: "p = x # p'" using assms(1) by (cases p) auto
  then have "closed (92 # p @ y) = closed (p' @ y)" by simp
  also have "\<dots> = closed y" using assms(2) p by (simp add: closed_plain_list)
  finally show ?thesis .
qed

lemma closed_trailing_commas: "closed b \<Longrightarrow> closed (trailing_commas_sub b)"
proof (induction b rule: length_induct)
  case (1 b)
  note IH = "1.IH" [rule_format]
  show ?case
  proof (cases b)
    case Nil
    then show ?thesis by simp
  next
    case (Cons c s)
    have nq: "c \<noteq> 34" using "1.prems" Cons by (auto split: if_splits)
    show ?thesis
    proof (cases "c = 92")
      case True
      then obtain e r where s: "s = e # r" using "1.prems" Cons by (cases s) auto
      have cr: "closed r" using "1.prems" Cons True s by simp
      have rec: "closed (trailing_commas_sub r)" using IH [of r] cr Cons s by simp
      show ?thesis
      proof (cases "e = 44")
        case e: False
        then show ?thesis using Cons True s rec by simp
      next
        case e: True
        show ?thesis
        proof (cases "dropWhile is_space r")
          case Nil
          then show ?thesis using Cons True s e rec by (simp del: dropWhile_eq_Nil_conv)
        next
          case d: (Cons d r')
          show ?thesis
          proof (cases "d = 125 \<or> d = 93")
            case False
            then show ?thesis using Cons True s e d rec by simp
          next
            case m: True
            have "closed r'" using closed_after_spaces [OF cr d] m by auto
            moreover have "length r' < length b"
              using Cons s length_dropWhile_le [of is_space r] d by simp
            ultimately have c': "closed (trailing_commas_sub r')" using IH by blast
            have "trailing_commas_sub b =
                92 # (takeWhile is_space r @ [d]) @ trailing_commas_sub r'"
              using Cons True s e d m by simp
            moreover have "closed (92 # (takeWhile is_space r @ [d]) @ trailing_commas_sub r')
                = closed (trailing_commas_sub r')"
              by (rule closed_escape_list) (use m spaces_closer_plain in auto)
            ultimately show ?thesis using c' by simp
          qed
        qed
      qed
    next
      case np: False
      have cs: "closed s" using "1.prems" Cons np nq by simp
      have rec: "closed (trailing_commas_sub s)" using IH [of s] cs Cons by simp
      show ?thesis
      proof (cases "c = 44")
        case False
        then show ?thesis using Cons np nq rec by simp
      next
        case True
        show ?thesis
        proof (cases "dropWhile is_space s")
          case Nil
          then show ?thesis using Cons True rec by (simp del: dropWhile_eq_Nil_conv)
        next
          case d: (Cons d r')
          show ?thesis
          proof (cases "d = 125 \<or> d = 93")
            case False
            then show ?thesis using Cons True d rec by simp
          next
            case m: True
            have "closed r'" using closed_after_spaces [OF cs d] m by auto
            moreover have "length r' < length b"
              using Cons length_dropWhile_le [of is_space s] d by simp
            ultimately have c': "closed (trailing_commas_sub r')" using IH by blast
            have "trailing_commas_sub b = (takeWhile is_space s @ [d]) @ trailing_commas_sub r'"
              using Cons True d m by simp
            moreover have "closed ((takeWhile is_space s @ [d]) @ trailing_commas_sub r')
                = closed (trailing_commas_sub r')"
              by (rule closed_plain_list) (use m spaces_closer_plain in auto)
            ultimately show ?thesis using c' by simp
          qed
        qed
      qed
    qed
  qed
qed

section \<open>Valid string bodies\<close>

lemma valid_plain_list:
  "\<forall>c \<in> set p. c \<noteq> 92 \<Longrightarrow> valid_body (p @ x) \<Longrightarrow> valid_body x"
  by (induction p) auto

lemma valid_swap:
  "\<forall>c \<in> set p. c \<noteq> 92 \<Longrightarrow> valid_body (p @ x) \<Longrightarrow> valid_body y \<Longrightarrow> valid_body (p @ y)"
  by (induction p) auto

lemma spaces_char_no_backslash:
  "d \<noteq> 92 \<Longrightarrow> \<forall>c \<in> set (takeWhile is_space s @ [d]). c \<noteq> 92"
  by (auto dest: set_takeWhileD space_plain)

lemma split_at_char:
  "dropWhile is_space s = d # r \<Longrightarrow> s = (takeWhile is_space s @ [d]) @ r"
  using split_spaces [of s] by simp

lemma simple_escape_chars: "simple_escape e \<Longrightarrow> e \<noteq> 125 \<and> e \<noteq> 44"
  by (auto simp: simple_escape_def)

lemma hex_chars: "is_hex h \<Longrightarrow> h \<noteq> 125 \<and> h \<noteq> 44"
  by (auto simp: is_hex_def)

lemma valid_missing_commas: "valid_body b \<Longrightarrow> valid_body (missing_commas_sub b)"
proof (induction b rule: length_induct)
  case (1 b)
  note IH = "1.IH" [rule_format]
  show ?case
  proof (cases b)
    case Nil
    then show ?thesis by simp
  next
    case (Cons c s)
    show ?thesis
    proof (cases "c = 92")
      case True
      then obtain e r where s: "s = e # r" using "1.prems" Cons by (cases s) auto
      show ?thesis
      proof (cases "simple_escape e")
        case se: True
        then have "valid_body r" using "1.prems" Cons True s by simp
        then have "valid_body (missing_commas_sub r)" using IH [of r] Cons s by simp
        then show ?thesis using Cons True s se simple_escape_chars [OF se] by simp
      next
        case se: False
        then have u: "e = 117" using "1.prems" Cons True s by (simp split: if_splits)
        then obtain h1 h2 h3 h4 r' where r: "r = h1 # h2 # h3 # h4 # r'"
          and hx: "is_hex h1" "is_hex h2" "is_hex h3" "is_hex h4" and v: "valid_body r'"
          using "1.prems" Cons True s se by (auto split: list.splits)
        have "valid_body (missing_commas_sub r')" using IH [of r'] v Cons s r by simp
        then show ?thesis
          using Cons True s se u r hx hex_chars [OF hx(1)] hex_chars [OF hx(2)]
            hex_chars [OF hx(3)] hex_chars [OF hx(4)]
          by simp
      qed
    next
      case np: False
      have c: "32 \<le> c" "c \<noteq> 34" and vs: "valid_body s" using "1.prems" Cons np by simp_all
      have rec: "valid_body (missing_commas_sub s)" using IH [of s] vs Cons by simp
      show ?thesis
      proof (cases "c = 125")
        case False
        then show ?thesis using Cons np c rec by simp
      next
        case True
        show ?thesis
        proof (cases "dropWhile is_space s")
          case Nil
          then show ?thesis using Cons True rec by (simp del: dropWhile_eq_Nil_conv)
        next
          case d: (Cons d r')
          show ?thesis
          proof (cases "d = 123")
            case False
            then show ?thesis using Cons True d rec by simp
          next
            case m: True
            have "valid_body ((takeWhile is_space s @ [d]) @ r')"
              using vs split_at_char [OF d] by simp
            then have "valid_body r'"
              using valid_plain_list [OF spaces_char_no_backslash, of d s r'] m by simp
            moreover have "length r' < length b"
              using Cons length_dropWhile_le [of is_space s] d by simp
            ultimately have "valid_body (missing_commas_sub r')" using IH by blast
            then show ?thesis using Cons True d m by simp
          qed
        qed
      qed
    qed
  qed
qed

lemma valid_trailing_commas: "valid_body b \<Longrightarrow> valid_body (trailing_commas_sub b)"
proof (induction b rule: length_induct)
  case (1 b)
  note IH = "1.IH" [rule_format]
  show ?case
  proof (cases b)
    case Nil
    then show ?thesis by simp
  next
    case (Cons c s)
    show ?thesis
    proof (cases "c = 92")
      case True
      then obtain e r where s: "s = e # r" using "1.prems" Cons by (cases s) auto
      show ?thesis
      proof (cases "simple_escape e")
        case se: True
        then have "valid_body r" using "1.prems" Cons True s by simp
        then have "valid_body (trailing_commas_sub r)" using IH [of r] Cons s by simp
        then show ?thesis using Cons True s se simple_escape_chars [OF se] by simp
      next
        case se: False
        then have u: "e = 117" using "1.prems" Cons True s by (simp split: if_splits)
        then obtain h1 h2 h3 h4 r' where r: "r = h1 # h2 # h3 # h4 # r'"
          and hx: "is_hex h1" "is_hex h2" "is_hex h3" "is_hex h4" and v: "valid_body r'"
          using "1.prems" Cons True s se by (auto split: list.splits)
        have "valid_body (trailing_commas_sub r')" using IH [of r'] v Cons s r by simp
        then show ?thesis
          using Cons True s se u r hx hex_chars [OF hx(1)] hex_chars [OF hx(2)]
            hex_chars [OF hx(3)] hex_chars [OF hx(4)]
          by simp
      qed
    next
      case np: False
      have c: "32 \<le> c" "c \<noteq> 34" and vs: "valid_body s" using "1.prems" Cons np by simp_all
      have rec: "valid_body (trailing_commas_sub s)" using IH [of s] vs Cons by simp
      show ?thesis
      proof (cases "c = 44")
        case False
        then show ?thesis using Cons np c rec by simp
      next
        case True
        show ?thesis
        proof (cases "dropWhile is_space s")
          case Nil
          then show ?thesis using Cons True rec by (simp del: dropWhile_eq_Nil_conv)
        next
          case d: (Cons d r')
          show ?thesis
          proof (cases "d = 125 \<or> d = 93")
            case False
            then show ?thesis using Cons True d rec by simp
          next
            case m: True
            have v: "valid_body ((takeWhile is_space s @ [d]) @ r')"
              using vs split_at_char [OF d] by simp
            have nb: "\<forall>c \<in> set (takeWhile is_space s @ [d]). c \<noteq> 92"
              by (rule spaces_char_no_backslash) (use m in auto)
            have "valid_body r'" using valid_plain_list [OF nb v] .
            moreover have "length r' < length b"
              using Cons length_dropWhile_le [of is_space s] d by simp
            ultimately have "valid_body (trailing_commas_sub r')" using IH by blast
            then have "valid_body ((takeWhile is_space s @ [d]) @ trailing_commas_sub r')"
              using valid_swap [OF nb v] by blast
            then show ?thesis using Cons True d m by simp
          qed
        qed
      qed
    qed
  qed
qed

section \<open>Tokens of a repaired text\<close>

lemma json_ws_space: "json_ws c \<Longrightarrow> is_space c"
  by (auto simp: json_ws_def is_space_def)

lemma space_atom_char: "is_space c \<Longrightarrow> \<not> json_ws c \<Longrightarrow> atom_char c"
  by (auto simp: atom_char_def structural_def is_space_def)

lemma structural_not_ws: "structural c \<Longrightarrow> \<not> json_ws c \<and> c \<noteq> 34 \<and> \<not> is_space c"
  by (auto simp: structural_def json_ws_def is_space_def)

lemma lex_json_ws: "list_all json_ws w \<Longrightarrow> lex (w @ u) = lex u"
  by (induction w) auto

lemma lex_spaces:
  "list_all is_space w \<Longrightarrow> lex (w @ u) = Some ts \<Longrightarrow> list_all atom_clean ts \<Longrightarrow>
     list_all json_ws w \<and> lex u = Some ts"
proof (induction w)
  case Nil
  then show ?case by simp
next
  case (Cons x w)
  show ?case
  proof (cases "json_ws x")
    case True
    then show ?thesis using Cons by simp
  next
    case False
    then have a: "atom_char x" using Cons.prems(1) space_atom_char by simp
    then have "x \<noteq> 34" "\<not> structural x" by (simp_all add: atom_char_def)
    with False Cons.prems(2) obtain ts' where
      "ts = TAtom (x # takeWhile atom_char (w @ u)) # ts'"
      by auto
    then have False using Cons.prems(1,3) by simp
    then show ?thesis ..
  qed
qed

lemma lex_after_spaces:
  assumes "lex s = Some ts" and "list_all atom_clean ts"
  shows "list_all json_ws (takeWhile is_space s) \<and> lex (dropWhile is_space s) = Some ts"
proof -
  have "list_all is_space (takeWhile is_space s)"
    by (simp add: list_all_iff) (meson set_takeWhileD)
  moreover have "lex (takeWhile is_space s @ dropWhile is_space s) = Some ts"
    using assms(1) by simp
  ultimately show ?thesis using assms(2) by (rule lex_spaces)
qed

lemma lex_head:
  assumes "lex (d # r) = Some (t # ts)" and "\<not> json_ws d"
  shows "(t = LBrace \<longrightarrow> d = 123) \<and> (t = RBrace \<longrightarrow> d = 125) \<and> (t = RBracket \<longrightarrow> d = 93)"
  using assms
  by (auto simp: structural_token_def structural_def split: if_splits option.splits)

lemma lex_structural:
  "structural c \<Longrightarrow> lex (c # s) = map_option (Cons (structural_token c)) (lex s)"
  using structural_not_ws [of c] by simp

lemma missing_commas_pass:
  "\<forall>x \<in> set a. x \<noteq> 125 \<Longrightarrow> missing_commas_sub (a @ r) = a @ missing_commas_sub r"
  by (induction a) auto

lemma missing_commas_head: "\<exists>x. missing_commas_sub (d # r) = d # x"
  by (auto split: list.splits)

lemma atom_span:
  assumes "y = [] \<or> \<not> atom_char (hd y)"
  shows "takeWhile atom_char (takeWhile atom_char s @ y) = takeWhile atom_char s
       \<and> dropWhile atom_char (takeWhile atom_char s @ y) = y"
proof -
  have a: "\<forall>x \<in> set (takeWhile atom_char s). atom_char x" by (meson set_takeWhileD)
  have t: "takeWhile atom_char y = []" and d: "dropWhile atom_char y = y"
    using assms by (cases y; auto)+
  show ?thesis using a t d by (simp add: takeWhile_append2 dropWhile_append2)
qed

lemma lex_atom:
  assumes "atom_char c" and "y = [] \<or> \<not> atom_char (hd y)"
  shows "lex (c # takeWhile atom_char s @ y) =
     map_option (Cons (TAtom (c # takeWhile atom_char s))) (lex y)"
  using assms(1) atom_span [OF assms(2), of s] by (simp add: atom_char_def)

lemma atom_no_structural: "atom_char c \<Longrightarrow> c \<noteq> 125 \<and> c \<noteq> 44"
  by (auto simp: atom_char_def structural_def)

declare dropWhile_eq_Nil_conv [simp del]

lemma lex_missing_commas:
  "lex t = Some ts \<Longrightarrow> list_all atom_clean ts \<Longrightarrow>
     lex (missing_commas_sub t) = Some (map (repair_string missing_commas_sub) (insert_commas ts))"
proof (induction t arbitrary: ts rule: length_induct)
  case (1 t)
  note IH = "1.IH" [rule_format]
  show ?case
  proof (cases t)
    case Nil
    then show ?thesis using "1.prems" by simp
  next
    case (Cons c s)
    consider (ws) "json_ws c" | (quote) "c = 34" | (brace) "c = 125"
      | (struct) "structural c" "c \<noteq> 125" | (atom) "atom_char c"
      by (auto simp: atom_char_def)
    then show ?thesis
    proof cases
      case ws
      then have c: "c \<noteq> 125" by (auto simp: json_ws_def)
      have "lex s = Some ts" using "1.prems"(1) Cons ws by simp
      then have "lex (missing_commas_sub s) =
          Some (map (repair_string missing_commas_sub) (insert_commas ts))"
        using IH [of s ts] "1.prems"(2) Cons by simp
      then show ?thesis using Cons ws c by simp
    next
      case quote
      then obtain body rest where se: "string_end s = Some (body, rest)"
        using "1.prems"(1) Cons by (auto simp: json_ws_def split: option.splits)
      then obtain tr where tr: "lex rest = Some tr" and ts: "ts = TString body # tr"
        using "1.prems"(1) Cons quote by (auto simp: json_ws_def)
      from string_end_closed [OF se] have s: "s = body @ 34 # rest" and cl: "closed body"
        by simp_all
      have len: "length rest < length t" using Cons s by simp
      have rec: "lex (missing_commas_sub rest) =
          Some (map (repair_string missing_commas_sub) (insert_commas tr))"
        using IH [OF len tr] "1.prems"(2) ts by simp
      have "missing_commas_sub t =
          34 # missing_commas_sub body @ 34 # missing_commas_sub rest"
        using missing_commas_quote [of "[]" "body @ 34 # rest"] missing_commas_quote [of body rest]
          Cons quote s by simp
      moreover have "string_end (missing_commas_sub body @ 34 # missing_commas_sub rest) =
          Some (missing_commas_sub body, missing_commas_sub rest)"
        using closed_string_end [OF closed_missing_commas [OF cl]] .
      ultimately show ?thesis using rec ts by (simp add: json_ws_def)
    next
      case struct
      then obtain ts' where ts': "lex s = Some ts'" and ts: "ts = structural_token c # ts'"
        using "1.prems"(1) Cons by (auto simp: lex_structural simp del: lex.simps)
      have rec: "lex (missing_commas_sub s) =
          Some (map (repair_string missing_commas_sub) (insert_commas ts'))"
        using IH [of s ts'] ts' "1.prems"(2) ts Cons by simp
      have nb: "structural_token c \<noteq> RBrace"
        using struct by (auto simp: structural_token_def structural_def)
      have ic: "insert_commas (structural_token c # ts') = structural_token c # insert_commas ts'"
        using nb by (cases "structural_token c"; cases ts'; simp)
      have rp: "repair_string missing_commas_sub (structural_token c) = structural_token c"
        by (simp add: structural_token_def)
      show ?thesis
        using Cons struct rec ts ic rp by (simp add: lex_structural del: lex.simps)
    next
      case atom
      let ?a = "c # takeWhile atom_char s"
      let ?rest = "dropWhile atom_char s"
      have nws: "\<not> json_ws c" "c \<noteq> 34" "\<not> structural c" using atom by (simp_all add: atom_char_def)
      then obtain tr where tr: "lex ?rest = Some tr" and ts: "ts = TAtom ?a # tr"
        using "1.prems"(1) Cons by auto
      have len: "length ?rest < length t" using Cons length_dropWhile_le [of atom_char s] by simp
      have rec: "lex (missing_commas_sub ?rest) =
          Some (map (repair_string missing_commas_sub) (insert_commas tr))"
        using IH [OF len tr] "1.prems"(2) ts by simp
      have no: "\<forall>x \<in> set ?a. x \<noteq> 125"
        using atom atom_no_structural by (auto dest: set_takeWhileD)
      have "t = ?a @ ?rest" using Cons by simp
      then have m: "missing_commas_sub t = ?a @ missing_commas_sub ?rest"
        using missing_commas_pass [OF no, of ?rest] by simp
      have y: "missing_commas_sub ?rest = [] \<or> \<not> atom_char (hd (missing_commas_sub ?rest))"
      proof (cases ?rest)
        case Nil
        then show ?thesis by (simp del: dropWhile_eq_Nil_conv)
      next
        case r: (Cons d r)
        then have "\<not> atom_char d" using hd_dropWhile [of atom_char s] by auto
        moreover obtain x where "missing_commas_sub (d # r) = d # x"
          using missing_commas_head by blast
        ultimately show ?thesis using r by simp
      qed
      have "lex (missing_commas_sub t) =
          map_option (Cons (TAtom ?a)) (lex (missing_commas_sub ?rest))"
        using lex_atom [OF atom y, of s] m by simp
      then show ?thesis using rec ts by simp
    next
      case brace
      then obtain ts' where ts': "lex s = Some ts'" and ts: "ts = RBrace # ts'"
        using "1.prems"(1) Cons lex_structural [of 125 s]
        by (auto simp: structural_def structural_token_def simp del: lex.simps)
      have cl: "list_all atom_clean ts'" using "1.prems"(2) ts by simp
      from lex_after_spaces [OF ts' cl]
      have look: "lex (dropWhile is_space s) = Some ts'" by simp
      have st: "structural 125" "structural 44" "structural 123" by (simp_all add: structural_def)
      have rec: "lex (missing_commas_sub s) =
          Some (map (repair_string missing_commas_sub) (insert_commas ts'))"
        using IH [of s ts'] ts' cl Cons by simp
      show ?thesis
      proof (cases "dropWhile is_space s")
        case Nil
        then have "ts' = []" using look by simp
        then show ?thesis
          using Cons brace Nil rec ts st
          by (simp add: lex_structural structural_token_def del: dropWhile_eq_Nil_conv lex.simps)
      next
        case d: (Cons d r)
        have nsp: "\<not> is_space d" using d hd_dropWhile [of is_space s] by auto
        then have nws: "\<not> json_ws d" using json_ws_space by blast
        show ?thesis
        proof (cases "d = 123")
          case True
          then obtain tr where tr: "lex r = Some tr" and ts'': "ts' = LBrace # tr"
            using look d st by (auto simp: lex_structural structural_token_def simp del: lex.simps)
          have len: "length r < length t"
            using Cons length_dropWhile_le [of is_space s] d by simp
          have "lex (missing_commas_sub r) =
              Some (map (repair_string missing_commas_sub) (insert_commas tr))"
            using IH [OF len tr] cl ts'' by simp
          then show ?thesis
            using Cons brace d True ts ts'' st
            by (simp add: lex_structural structural_token_def del: lex.simps)
        next
          case False
          have "insert_commas (RBrace # ts') = RBrace # insert_commas ts'"
          proof (cases ts')
            case Nil
            then show ?thesis by simp
          next
            case t': (Cons t' tr)
            have "t' \<noteq> LBrace" using lex_head [of d r t' tr] look d t' nws False by auto
            then show ?thesis using t' by (cases t') simp_all
          qed
          then show ?thesis
            using Cons brace d False rec ts st
            by (simp add: lex_structural structural_token_def del: lex.simps)
        qed
      qed
    qed
  qed
qed

lemma trailing_commas_pass:
  "\<forall>x \<in> set a. x \<noteq> 44 \<Longrightarrow> trailing_commas_sub (a @ r) = a @ trailing_commas_sub r"
  by (induction a) auto

lemma trailing_commas_head:
  assumes "lex (d # r) = Some tr" and "list_all atom_clean tr" and "\<not> atom_char d"
  shows "trailing_commas_sub (d # r) \<noteq> [] \<and> \<not> atom_char (hd (trailing_commas_sub (d # r)))"
proof (cases "d = 44")
  case False
  then show ?thesis using assms(3) by simp
next
  case True
  have st: "structural 44" by (simp add: structural_def)
  from assms(1) True obtain tr' where tr': "lex r = Some tr'" and tr: "tr = Comma # tr'"
    using lex_structural [OF st, of r] by (auto simp: structural_token_def simp del: lex.simps)
  have "list_all atom_clean tr'" using assms(2) tr by simp
  from lex_after_spaces [OF tr' this]
  have ws: "list_all json_ws (takeWhile is_space r)" by simp
  show ?thesis
  proof (cases "dropWhile is_space r")
    case Nil
    then show ?thesis using True assms(3) by simp
  next
    case d': (Cons d' r')
    show ?thesis
    proof (cases "d' = 125 \<or> d' = 93")
      case False
      then show ?thesis using True d' assms(3) by simp
    next
      case m: True
      have eq: "trailing_commas_sub (d # r) = takeWhile is_space r @ d' # trailing_commas_sub r'"
        using True d' m by simp
      show ?thesis
      proof (cases "takeWhile is_space r")
        case Nil
        then show ?thesis using eq m by (auto simp: atom_char_def structural_def)
      next
        case (Cons x w)
        then have "json_ws x" using ws by simp
        then show ?thesis using eq Cons by (simp add: atom_char_def)
      qed
    qed
  qed
qed

lemma lex_trailing_commas:
  "lex t = Some ts \<Longrightarrow> list_all atom_clean ts \<Longrightarrow>
     lex (trailing_commas_sub t) =
       Some (map (repair_string trailing_commas_sub) (drop_trailing_commas ts))"
proof (induction t arbitrary: ts rule: length_induct)
  case (1 t)
  note IH = "1.IH" [rule_format]
  show ?case
  proof (cases t)
    case Nil
    then show ?thesis using "1.prems" by simp
  next
    case (Cons c s)
    consider (ws) "json_ws c" | (quote) "c = 34" | (comma) "c = 44"
      | (struct) "structural c" "c \<noteq> 44" | (atom) "atom_char c"
      by (auto simp: atom_char_def)
    then show ?thesis
    proof cases
      case ws
      then have c: "c \<noteq> 44" by (auto simp: json_ws_def)
      have "lex s = Some ts" using "1.prems"(1) Cons ws by simp
      then have "lex (trailing_commas_sub s) =
          Some (map (repair_string trailing_commas_sub) (drop_trailing_commas ts))"
        using IH [of s ts] "1.prems"(2) Cons by simp
      then show ?thesis using Cons ws c by simp
    next
      case quote
      then obtain body rest where se: "string_end s = Some (body, rest)"
        using "1.prems"(1) Cons by (auto simp: json_ws_def split: option.splits)
      then obtain tr where tr: "lex rest = Some tr" and ts: "ts = TString body # tr"
        using "1.prems"(1) Cons quote by (auto simp: json_ws_def)
      from string_end_closed [OF se] have s: "s = body @ 34 # rest" and cl: "closed body"
        by simp_all
      have len: "length rest < length t" using Cons s by simp
      have rec: "lex (trailing_commas_sub rest) =
          Some (map (repair_string trailing_commas_sub) (drop_trailing_commas tr))"
        using IH [OF len tr] "1.prems"(2) ts by simp
      have "trailing_commas_sub t =
          34 # trailing_commas_sub body @ 34 # trailing_commas_sub rest"
        using trailing_commas_quote [of "[]" "body @ 34 # rest"]
          trailing_commas_quote [of body rest] Cons quote s by simp
      moreover have "string_end (trailing_commas_sub body @ 34 # trailing_commas_sub rest) =
          Some (trailing_commas_sub body, trailing_commas_sub rest)"
        using closed_string_end [OF closed_trailing_commas [OF cl]] .
      ultimately show ?thesis using rec ts by (simp add: json_ws_def)
    next
      case struct
      then obtain ts' where ts': "lex s = Some ts'" and ts: "ts = structural_token c # ts'"
        using "1.prems"(1) Cons by (auto simp: lex_structural simp del: lex.simps)
      have rec: "lex (trailing_commas_sub s) =
          Some (map (repair_string trailing_commas_sub) (drop_trailing_commas ts'))"
        using IH [of s ts'] ts' "1.prems"(2) ts Cons by simp
      have nb: "structural_token c \<noteq> Comma"
        using struct by (auto simp: structural_token_def structural_def)
      have ic: "drop_trailing_commas (structural_token c # ts') =
          structural_token c # drop_trailing_commas ts'"
        using nb by (cases "structural_token c"; cases ts'; simp)
      have rp: "repair_string trailing_commas_sub (structural_token c) = structural_token c"
        by (simp add: structural_token_def)
      show ?thesis
        using Cons struct rec ts ic rp by (simp add: lex_structural del: lex.simps)
    next
      case atom
      let ?a = "c # takeWhile atom_char s"
      let ?rest = "dropWhile atom_char s"
      have nws: "\<not> json_ws c" "c \<noteq> 34" "\<not> structural c" using atom by (simp_all add: atom_char_def)
      then obtain tr where tr: "lex ?rest = Some tr" and ts: "ts = TAtom ?a # tr"
        using "1.prems"(1) Cons by auto
      have cl: "list_all atom_clean tr" using "1.prems"(2) ts by simp
      have len: "length ?rest < length t" using Cons length_dropWhile_le [of atom_char s] by simp
      have rec: "lex (trailing_commas_sub ?rest) =
          Some (map (repair_string trailing_commas_sub) (drop_trailing_commas tr))"
        using IH [OF len tr] cl by simp
      have no: "\<forall>x \<in> set ?a. x \<noteq> 44"
        using atom atom_no_structural by (auto dest: set_takeWhileD)
      have "t = ?a @ ?rest" using Cons by simp
      then have m: "trailing_commas_sub t = ?a @ trailing_commas_sub ?rest"
        using trailing_commas_pass [OF no, of ?rest] by simp
      have y: "trailing_commas_sub ?rest = [] \<or> \<not> atom_char (hd (trailing_commas_sub ?rest))"
      proof (cases ?rest)
        case Nil
        then show ?thesis by simp
      next
        case r: (Cons d r)
        then have "\<not> atom_char d" using hd_dropWhile [of atom_char s] by auto
        then show ?thesis using trailing_commas_head [of d r tr] tr cl r by simp
      qed
      have "lex (trailing_commas_sub t) =
          map_option (Cons (TAtom ?a)) (lex (trailing_commas_sub ?rest))"
        using lex_atom [OF atom y, of s] m by simp
      then show ?thesis using rec ts by simp
    next
      case comma
      have st: "structural 44" "structural 125" "structural 93" by (simp_all add: structural_def)
      from comma obtain ts' where ts': "lex s = Some ts'" and ts: "ts = Comma # ts'"
        using "1.prems"(1) Cons lex_structural [of 44 s]
        by (auto simp: structural_def structural_token_def simp del: lex.simps)
      have cl: "list_all atom_clean ts'" using "1.prems"(2) ts by simp
      from lex_after_spaces [OF ts' cl]
      have look: "lex (dropWhile is_space s) = Some ts'"
        and ws: "list_all json_ws (takeWhile is_space s)" by simp_all
      have rec: "lex (trailing_commas_sub s) =
          Some (map (repair_string trailing_commas_sub) (drop_trailing_commas ts'))"
        using IH [of s ts'] ts' cl Cons by simp
      show ?thesis
      proof (cases "dropWhile is_space s")
        case Nil
        then have "ts' = []" using look by simp
        then show ?thesis
          using Cons comma Nil rec ts st
          by (simp add: lex_structural structural_token_def del: lex.simps)
      next
        case d: (Cons d r)
        have nsp: "\<not> is_space d" using d hd_dropWhile [of is_space s] by auto
        then have nws: "\<not> json_ws d" using json_ws_space by blast
        show ?thesis
        proof (cases "d = 125 \<or> d = 93")
          case True
          then have sd: "structural d" by (auto simp: structural_def)
          then obtain tr where tr: "lex r = Some tr" and ts'': "ts' = structural_token d # tr"
            using look d by (auto simp: lex_structural simp del: lex.simps)
          have len: "length r < length t"
            using Cons length_dropWhile_le [of is_space s] d by simp
          have recr: "lex (trailing_commas_sub r) =
              Some (map (repair_string trailing_commas_sub) (drop_trailing_commas tr))"
            using IH [OF len tr] cl ts'' by simp
          have "trailing_commas_sub t = takeWhile is_space s @ d # trailing_commas_sub r"
            using Cons comma d True by simp
          then have "lex (trailing_commas_sub t) = lex (d # trailing_commas_sub r)"
            using lex_json_ws [OF ws] by simp
          also have "\<dots> = Some (structural_token d #
              map (repair_string trailing_commas_sub) (drop_trailing_commas tr))"
            using recr sd by (simp add: lex_structural del: lex.simps)
          finally show ?thesis
            using True ts ts'' by (auto simp: structural_token_def)
        next
          case False
          have "drop_trailing_commas (Comma # ts') = Comma # drop_trailing_commas ts'"
          proof (cases ts')
            case Nil
            then show ?thesis by simp
          next
            case t': (Cons t' tr)
            have "t' \<noteq> RBrace \<and> t' \<noteq> RBracket"
              using lex_head [of d r t' tr] look d t' nws False by auto
            then show ?thesis using t' by (cases t') simp_all
          qed
          then show ?thesis
            using Cons comma d False rec ts st
            by (simp add: lex_structural structural_token_def del: lex.simps)
        qed
      qed
    qed
  qed
qed

section \<open>Values read from repaired tokens\<close>

lemma repair_string_kind [simp]:
  "repair_string f t = LBrace \<longleftrightarrow> t = LBrace"
  "repair_string f t = RBrace \<longleftrightarrow> t = RBrace"
  "repair_string f t = LBracket \<longleftrightarrow> t = LBracket"
  "repair_string f t = RBracket \<longleftrightarrow> t = RBracket"
  "repair_string f t = Colon \<longleftrightarrow> t = Colon"
  "repair_string f t = Comma \<longleftrightarrow> t = Comma"
  "repair_string f t = TAtom a \<longleftrightarrow> t = TAtom a"
  by (cases t; simp)+

lemma dict_of_empty [simp]: "dict_of [] = []"
  by (simp add: dict_of_def)

lemma alike_empty: "alike (JArr []) (JArr [])" "alike (JObj []) (JObj [])"
  using alike.array [of "[]" "[]"] alike.object [of "[]" "[]"] by simp_all

lemma alike_atom: "parse_atom a = Some v \<Longrightarrow> alike v v"
  by (auto simp: parse_atom_def intro: alike.intros split: if_splits)

lemma decode_repaired:
  assumes "\<And>b. valid_body b \<Longrightarrow> valid_body (f b)"
  shows "decode_string b = Some s \<Longrightarrow> \<exists>s'. decode_string (f b) = Some s'"
  using assms by (auto simp: decode_string_def split: if_splits)

lemma parse_repaired:
  assumes f: "\<And>b. valid_body b \<Longrightarrow> valid_body (f b)"
  shows
    "(\<forall>ts v rest. parse_value n ts = Some (v, rest) \<longrightarrow>
        (\<exists>v'. parse_value n (map (repair_string f) ts) = Some (v', map (repair_string f) rest)
              \<and> alike v v')) \<and>
     (\<forall>ts vs rest. parse_elements n ts = Some (vs, rest) \<longrightarrow>
        (\<exists>vs'. parse_elements n (map (repair_string f) ts) = Some (vs', map (repair_string f) rest)
              \<and> list_all2 alike vs vs')) \<and>
     (\<forall>ts kvs rest. parse_members n ts = Some (kvs, rest) \<longrightarrow>
        (\<exists>kvs'. parse_members n (map (repair_string f) ts) =
                  Some (kvs', map (repair_string f) rest)
              \<and> list_all2 (\<lambda>m m'. alike (snd m) (snd m')) kvs kvs'))"
proof (induction n)
  case 0
  then show ?case by simp
next
  case (Suc n)
  let ?m = "repair_string f"
  note IHv = Suc.IH [THEN conjunct1, rule_format]
  note IHe = Suc.IH [THEN conjunct2, THEN conjunct1, rule_format]
  note IHm = Suc.IH [THEN conjunct2, THEN conjunct2, rule_format]
  have v: "\<exists>v'. parse_value (Suc n) (map ?m ts) = Some (v', map ?m rest) \<and> alike v v'"
    if p: "parse_value (Suc n) ts = Some (v, rest)" for ts v rest
  proof (cases ts)
    case Nil
    then show ?thesis using p by simp
  next
    case (Cons t ts')
    show ?thesis
    proof (cases t)
      case (TString b)
      then obtain s where s: "decode_string b = Some s" and v: "v = JStr s" and r: "rest = ts'"
        using p Cons by auto
      from f s have "\<exists>s'. decode_string (f b) = Some s'" by (rule decode_repaired)
      then obtain s' where "decode_string (f b) = Some s'" by blast
      then show ?thesis
        using Cons TString v r by (auto intro: alike.string)
    next
      case (TAtom a)
      then show ?thesis using p Cons by (auto simp: alike_atom)
    next
      case LBracket
      show ?thesis
      proof (cases "\<exists>r. ts' = RBracket # r")
        case True
        then show ?thesis using p Cons LBracket by (auto simp: alike_empty)
      next
        case False
        then have e: "parse_value (Suc n) ts =
            map_option (\<lambda>(vs, r). (JArr vs, r)) (parse_elements n ts')"
          using Cons LBracket by (auto split: list.splits token.splits)
        from p [unfolded e] obtain vs where pe: "parse_elements n ts' = Some (vs, rest)"
          and v: "v = JArr vs"
          by (cases "parse_elements n ts'") auto
        from IHe [OF pe] obtain vs' where
          pe': "parse_elements n (map ?m ts') = Some (vs', map ?m rest)"
          and l: "list_all2 alike vs vs'" by blast
        have "\<not> (\<exists>r. map ?m ts' = RBracket # r)" using False by (cases ts') auto
        then have "parse_value (Suc n) (map ?m ts) =
            map_option (\<lambda>(vs, r). (JArr vs, r)) (parse_elements n (map ?m ts'))"
          using Cons LBracket by (auto split: list.splits token.splits)
        then show ?thesis
          using pe' l v by (auto intro: alike.array)
      qed
    next
      case LBrace
      show ?thesis
      proof (cases "\<exists>r. ts' = RBrace # r")
        case True
        then show ?thesis using p Cons LBrace by (auto simp: alike_empty)
      next
        case False
        then have e: "parse_value (Suc n) ts =
            map_option (\<lambda>(kvs, r). (JObj (dict_of kvs), r))
              (parse_members n ts')"
          using Cons LBrace by (auto split: list.splits token.splits)
        from p [unfolded e] obtain kvs where pm: "parse_members n ts' = Some (kvs, rest)"
          and v: "v = JObj (dict_of kvs)"
          by (cases "parse_members n ts'") auto
        from IHm [OF pm] obtain kvs' where
          pm': "parse_members n (map ?m ts') = Some (kvs', map ?m rest)"
          and l: "list_all2 (\<lambda>m m'. alike (snd m) (snd m')) kvs kvs'" by blast
        have "\<not> (\<exists>r. map ?m ts' = RBrace # r)" using False by (cases ts') auto
        then have "parse_value (Suc n) (map ?m ts) =
            map_option (\<lambda>(kvs, r). (JObj (dict_of kvs), r))
              (parse_members n (map ?m ts'))"
          using Cons LBrace by (auto split: list.splits token.splits)
        then show ?thesis
          using pm' l v by (auto intro: alike.object)
      qed
    qed (use p Cons in auto)
  qed
  have e: "\<exists>vs'. parse_elements (Suc n) (map ?m ts) = Some (vs', map ?m rest)
              \<and> list_all2 alike vs vs'"
    if p: "parse_elements (Suc n) ts = Some (vs, rest)" for ts vs rest
  proof -
    from p obtain v r where pv: "parse_value n ts = Some (v, r)"
      by (auto split: option.splits)
    from IHv [OF pv] obtain v' where pv': "parse_value n (map ?m ts) = Some (v', map ?m r)"
      and kv: "alike v v'" by blast
    show ?thesis
    proof (cases r)
      case Nil
      then show ?thesis using p pv by simp
    next
      case (Cons t r')
      show ?thesis
      proof (cases t)
        case Comma
        then obtain vs0 where pe: "parse_elements n r' = Some (vs0, rest)" and vs: "vs = v # vs0"
          using p pv Cons by auto
        from IHe [OF pe] obtain vs0' where
          "parse_elements n (map ?m r') = Some (vs0', map ?m rest)"
          "list_all2 alike vs0 vs0'" by blast
        then show ?thesis using pv' Cons Comma vs kv by auto
      next
        case RBracket
        then show ?thesis using p pv pv' Cons kv by auto
      qed (use p pv Cons in auto)
    qed
  qed
  have m: "\<exists>kvs'. parse_members (Suc n) (map ?m ts) = Some (kvs', map ?m rest)
              \<and> list_all2 (\<lambda>m m'. alike (snd m) (snd m')) kvs kvs'"
    if p: "parse_members (Suc n) ts = Some (kvs, rest)" for ts kvs rest
  proof -
    from p obtain key r where ts: "ts = TString key # Colon # r"
      by (auto split: list.splits token.splits)
    with p obtain k where k: "decode_string key = Some k"
      by (auto split: option.splits)
    from f k have "\<exists>k'. decode_string (f key) = Some k'" by (rule decode_repaired)
    then obtain k' where k': "decode_string (f key) = Some k'" by blast
    from p ts k obtain v r1 where pv: "parse_value n r = Some (v, r1)"
      by (auto split: option.splits)
    from IHv [OF pv] obtain v' where pv': "parse_value n (map ?m r) = Some (v', map ?m r1)"
      and av: "alike v v'" by blast
    show ?thesis
    proof (cases r1)
      case Nil
      then show ?thesis using p ts k pv by simp
    next
      case (Cons t r2)
      show ?thesis
      proof (cases t)
        case Comma
        then obtain kvs0 where pm: "parse_members n r2 = Some (kvs0, rest)"
          and kvs: "kvs = (k, v) # kvs0"
          using p ts k pv Cons by auto
        from IHm [OF pm] obtain kvs0' where
          "parse_members n (map ?m r2) = Some (kvs0', map ?m rest)"
          "list_all2 (\<lambda>m m'. alike (snd m) (snd m')) kvs0 kvs0'" by blast
        then show ?thesis using ts k' pv' av kvs Cons Comma by auto
      next
        case RBrace
        then show ?thesis using p ts k k' pv pv' av Cons by auto
      qed (use p ts k pv Cons in auto)
    qed
  qed
  show ?case using v e m by blast
qed

section \<open>The tokens a value was read from\<close>

lemma insert_commas_cons:
  "\<not> (t = RBrace \<and> ts \<noteq> [] \<and> hd ts = LBrace) \<Longrightarrow>
     insert_commas (t # ts) = t # insert_commas ts"
  by (cases "t # ts" rule: insert_commas.cases) auto

lemma insert_commas_append:
  "b = [] \<or> hd b \<noteq> LBrace \<Longrightarrow> insert_commas (a @ b) = insert_commas a @ insert_commas b"
  by (induction a rule: insert_commas.induct) (auto simp: insert_commas_cons)

lemma drop_trailing_commas_cons:
  "\<not> (t = Comma \<and> ts \<noteq> [] \<and> (hd ts = RBrace \<or> hd ts = RBracket)) \<Longrightarrow>
     drop_trailing_commas (t # ts) = t # drop_trailing_commas ts"
  by (cases "t # ts" rule: drop_trailing_commas.cases) auto

lemma drop_trailing_commas_append:
  "a = [] \<or> last a \<noteq> Comma \<Longrightarrow>
     drop_trailing_commas (a @ b) = drop_trailing_commas a @ drop_trailing_commas b"
  by (induction a rule: drop_trailing_commas.induct)
    (auto simp: drop_trailing_commas_cons split: if_splits)

lemma drop_trailing_commas_comma:
  "c \<noteq> [] \<Longrightarrow> hd c \<noteq> RBrace \<Longrightarrow> hd c \<noteq> RBracket \<Longrightarrow>
     drop_trailing_commas (Comma # c) = Comma # drop_trailing_commas c"
  by (simp add: drop_trailing_commas_cons)

lemma wf_single: "atom_ok t \<Longrightarrow> (\<exists>b. t = TString b) \<or> (\<exists>a. t = TAtom a) \<Longrightarrow> well_formed [t]"
  by (auto simp: well_formed_def)

lemma wf_empty: "well_formed [LBracket, RBracket]" "well_formed [LBrace, RBrace]"
  by (simp_all add: well_formed_def)

lemma wf_open: "well_formed c \<Longrightarrow> t = LBracket \<or> t = LBrace \<Longrightarrow> well_formed (t # c)"
  by (cases c; cases "hd c") (auto simp: well_formed_def)

lemma wf_close:
  assumes "well_formed c" "t = RBracket \<or> t = RBrace"
  shows "well_formed (c @ [t])"
proof -
  have "insert_commas (c @ [t]) = c @ [t]"
    using assms insert_commas_append [of "[t]" c] by (auto simp: well_formed_def)
  moreover have "drop_trailing_commas (c @ [t]) = c @ [t]"
    using assms drop_trailing_commas_append [of c "[t]"] by (auto simp: well_formed_def)
  ultimately show ?thesis using assms by (auto simp: well_formed_def)
qed

lemma wf_comma:
  assumes "well_formed a" "well_formed b"
  shows "well_formed (a @ Comma # b)"
proof -
  have "insert_commas (a @ Comma # b) = a @ Comma # b"
    using assms insert_commas_append [of "Comma # b" a] by (auto simp: well_formed_def)
  moreover have "drop_trailing_commas (a @ Comma # b) = a @ Comma # b"
    using assms drop_trailing_commas_append [of a "Comma # b"] drop_trailing_commas_comma [of b]
    by (auto simp: well_formed_def)
  ultimately show ?thesis using assms by (auto simp: well_formed_def)
qed

lemma wf_member: "well_formed c \<Longrightarrow> well_formed (TString k # Colon # c)"
  by (cases c; cases "hd c") (auto simp: well_formed_def)

lemma parse_well_formed:
  "(\<forall>ts v rest. parse_value n ts = Some (v, rest) \<longrightarrow>
      (\<exists>c. ts = c @ rest \<and> well_formed c)) \<and>
   (\<forall>ts vs rest. parse_elements n ts = Some (vs, rest) \<longrightarrow>
      (\<exists>c. ts = c @ rest \<and> well_formed c)) \<and>
   (\<forall>ts kvs rest. parse_members n ts = Some (kvs, rest) \<longrightarrow>
      (\<exists>c. ts = c @ rest \<and> well_formed c))"
proof (induction n)
  case 0
  then show ?case by simp
next
  case (Suc n)
  note IHv = Suc.IH [THEN conjunct1, rule_format]
  note IHe = Suc.IH [THEN conjunct2, THEN conjunct1, rule_format]
  note IHm = Suc.IH [THEN conjunct2, THEN conjunct2, rule_format]
  have v: "\<exists>c. ts = c @ rest \<and> well_formed c"
    if p: "parse_value (Suc n) ts = Some (v, rest)" for ts v rest
  proof (cases ts)
    case Nil
    then show ?thesis using p by simp
  next
    case (Cons t ts')
    show ?thesis
    proof (cases t)
      case (TString b)
      then have "ts = [t] @ rest" using p Cons by auto
      moreover have "well_formed [t]" using TString by (simp add: wf_single)
      ultimately show ?thesis by blast
    next
      case (TAtom a)
      then have "ts = [t] @ rest" and "parse_atom a \<noteq> None" using p Cons by auto
      moreover from this have "well_formed [t]" using TAtom by (simp add: wf_single)
      ultimately show ?thesis by blast
    next
      case LBracket
      show ?thesis
      proof (cases "\<exists>r. ts' = RBracket # r")
        case True
        then have "ts = [LBracket, RBracket] @ rest" using p Cons LBracket by auto
        then show ?thesis using wf_empty by blast
      next
        case False
        then have e: "parse_value (Suc n) ts =
            map_option (\<lambda>(vs, r). (JArr vs, r)) (parse_elements n ts')"
          using Cons LBracket by (auto split: list.splits token.splits)
        from p [unfolded e] obtain vs where pe: "parse_elements n ts' = Some (vs, rest)"
          by (cases "parse_elements n ts'") auto
        from IHe [OF pe] obtain c where "ts' = c @ rest" "well_formed c" by blast
        then have "ts = (LBracket # c) @ rest" "well_formed (LBracket # c)"
          using Cons LBracket by (simp_all add: wf_open)
        then show ?thesis by blast
      qed
    next
      case LBrace
      show ?thesis
      proof (cases "\<exists>r. ts' = RBrace # r")
        case True
        then have "ts = [LBrace, RBrace] @ rest" using p Cons LBrace by auto
        then show ?thesis using wf_empty by blast
      next
        case False
        then have e: "parse_value (Suc n) ts =
            map_option (\<lambda>(kvs, r). (JObj (dict_of kvs), r))
              (parse_members n ts')"
          using Cons LBrace by (auto split: list.splits token.splits)
        from p [unfolded e] obtain kvs where pm: "parse_members n ts' = Some (kvs, rest)"
          by (cases "parse_members n ts'") auto
        from IHm [OF pm] obtain c where "ts' = c @ rest" "well_formed c" by blast
        then have "ts = (LBrace # c) @ rest" "well_formed (LBrace # c)"
          using Cons LBrace by (simp_all add: wf_open)
        then show ?thesis by blast
      qed
    qed (use p Cons in auto)
  qed
  have e: "\<exists>c. ts = c @ rest \<and> well_formed c"
    if p: "parse_elements (Suc n) ts = Some (vs, rest)" for ts vs rest
  proof -
    from p obtain v r where pv: "parse_value n ts = Some (v, r)"
      by (auto split: option.splits)
    from IHv [OF pv] obtain c where c: "ts = c @ r" "well_formed c" by blast
    show ?thesis
    proof (cases r)
      case Nil
      then show ?thesis using p pv by simp
    next
      case (Cons t r')
      show ?thesis
      proof (cases t)
        case Comma
        then obtain vs0 where pe: "parse_elements n r' = Some (vs0, rest)"
          using p pv Cons by auto
        from IHe [OF pe] obtain c' where "r' = c' @ rest" "well_formed c'" by blast
        then have "ts = (c @ Comma # c') @ rest" "well_formed (c @ Comma # c')"
          using c Cons Comma by (simp_all add: wf_comma)
        then show ?thesis by blast
      next
        case RBracket
        then have "ts = (c @ [RBracket]) @ rest" "well_formed (c @ [RBracket])"
          using p pv c Cons by (simp_all add: wf_close)
        then show ?thesis by blast
      qed (use p pv Cons in auto)
    qed
  qed
  have m: "\<exists>c. ts = c @ rest \<and> well_formed c"
    if p: "parse_members (Suc n) ts = Some (kvs, rest)" for ts kvs rest
  proof -
    from p obtain key r where ts: "ts = TString key # Colon # r"
      by (auto split: list.splits token.splits)
    with p obtain k where k: "decode_string key = Some k"
      by (auto split: option.splits)
    from p ts k obtain v r1 where pv: "parse_value n r = Some (v, r1)"
      by (auto split: option.splits)
    from IHv [OF pv] obtain c where c: "r = c @ r1" "well_formed c" by blast
    show ?thesis
    proof (cases r1)
      case Nil
      then show ?thesis using p ts k pv by simp
    next
      case (Cons t r2)
      show ?thesis
      proof (cases t)
        case Comma
        then obtain kvs0 where pm: "parse_members n r2 = Some (kvs0, rest)"
          using p ts k pv Cons by auto
        from IHm [OF pm] obtain c' where c': "r2 = c' @ rest" "well_formed c'" by blast
        have "well_formed (c @ Comma # c')" using c c' by (simp add: wf_comma)
        then have "well_formed (TString key # Colon # c @ Comma # c')" by (rule wf_member)
        moreover have "ts = (TString key # Colon # c @ Comma # c') @ rest"
          using ts c c' Cons Comma by simp
        ultimately show ?thesis by blast
      next
        case RBrace
        have "well_formed (c @ [RBrace])" using c by (simp add: wf_close)
        then have "well_formed (TString key # Colon # c @ [RBrace])" by (rule wf_member)
        moreover have "ts = (TString key # Colon # c @ [RBrace]) @ rest"
          using p ts k pv c Cons RBrace by simp
        ultimately show ?thesis by blast
      qed (use p ts k pv Cons in auto)
    qed
  qed
  show ?case using v e m by blast
qed

lemma parse_tokens_well_formed: "parse_tokens ts = Some v \<Longrightarrow> well_formed ts"
proof -
  assume "parse_tokens ts = Some v"
  then have "parse_value (length ts) ts = Some (v, [])"
    by (auto simp: parse_tokens_def split: option.splits list.splits)
  from parse_well_formed [THEN conjunct1, rule_format, OF this] show ?thesis by simp
qed

lemma number_char_not_space: "number_char c \<Longrightarrow> \<not> is_space c"
  by (auto simp: number_char_def is_digit_def is_space_def)

lemma parse_atom_clean: "parse_atom a \<noteq> None \<Longrightarrow> list_all (\<lambda>c. \<not> is_space c) a"
proof -
  assume p: "parse_atom a \<noteq> None"
  have lit: "list_all (\<lambda>c. \<not> is_space c) (str ''null'')" "list_all (\<lambda>c. \<not> is_space c) (str ''true'')"
    "list_all (\<lambda>c. \<not> is_space c) (str ''false'')" "list_all (\<lambda>c. \<not> is_space c) (str ''NaN'')"
    "list_all (\<lambda>c. \<not> is_space c) (str ''Infinity'')"
    "list_all (\<lambda>c. \<not> is_space c) (str ''-Infinity'')"
    by (simp_all add: str_def is_space_def)
  have "is_number a \<Longrightarrow> list_all (\<lambda>c. \<not> is_space c) a"
    by (auto simp: is_number_def list_all_iff number_char_not_space)
  then show ?thesis using p lit unfolding parse_atom_def by (auto split: if_splits)
qed

lemma atom_ok_clean: "atom_ok t \<Longrightarrow> atom_clean t"
  by (cases t) (simp_all add: parse_atom_clean)

lemma well_formed_clean: "well_formed ts \<Longrightarrow> list_all atom_clean ts"
  by (auto simp: well_formed_def list_all_iff atom_ok_clean)

lemma atom_clean_insert_commas: "list_all atom_clean (insert_commas ts) = list_all atom_clean ts"
  by (induction ts rule: insert_commas.induct) auto

lemma atom_clean_drop_trailing_commas:
  "list_all atom_clean (drop_trailing_commas ts) = list_all atom_clean ts"
  by (induction ts rule: drop_trailing_commas.induct) auto

lemma atom_clean_repair: "list_all atom_clean (map (repair_string f) ts) = list_all atom_clean ts"
proof (induction ts)
  case Nil
  then show ?case by simp
next
  case (Cons t ts)
  then show ?case by (cases t) auto
qed

lemma drop_trailing_commas_repair:
  "drop_trailing_commas (map (repair_string f) ts) =
     map (repair_string f) (drop_trailing_commas ts)"
  by (induction ts rule: drop_trailing_commas.induct) (auto simp: drop_trailing_commas_cons hd_map)

lemma adjacent_cons: "adjacent ts \<Longrightarrow> adjacent (t # ts)"
  by (cases "t # ts" rule: adjacent.cases) auto

lemma adjacent_iff:
  "adjacent (t # ts) \<longleftrightarrow> (t = RBrace \<and> (\<exists>r. ts = LBrace # r)) \<or> adjacent ts"
  by (cases "t # ts" rule: adjacent.cases) auto

lemma insert_commas_fixed: "insert_commas ts = ts \<longleftrightarrow> \<not> adjacent ts"
  by (induction ts rule: insert_commas.induct) auto

lemma drop_trailing_commas_brace:
  "drop_trailing_commas (LBrace # r) = LBrace # drop_trailing_commas r"
  by simp

lemma adjacent_drop_trailing_commas: "adjacent ts \<Longrightarrow> adjacent (drop_trailing_commas ts)"
proof (induction ts rule: drop_trailing_commas.induct)
  case (1 ts)
  then show ?case by (auto simp: adjacent_iff)
next
  case (2 ts)
  then show ?case by (auto simp: adjacent_iff)
qed (auto simp: adjacent_iff drop_trailing_commas_cons)

lemma insert_commas_lenient:
  "insert_commas (drop_trailing_commas ts) = drop_trailing_commas ts \<Longrightarrow> insert_commas ts = ts"
  using adjacent_drop_trailing_commas [of ts] by (auto simp: insert_commas_fixed)

section \<open>Reading a repaired text\<close>

lemma repair_string_comp:
  "map (repair_string g) (map (repair_string f) ts) = map (repair_string (g \<circ> f)) ts"
proof (induction ts)
  case Nil
  then show ?case by simp
next
  case (Cons t ts)
  then show ?case by (cases t) auto
qed

lemma parse_tokens_repaired:
  assumes f: "\<And>b. valid_body b \<Longrightarrow> valid_body (f b)"
    and p: "parse_tokens ts = Some v"
  shows "\<exists>v'. parse_tokens (map (repair_string f) ts) = Some v' \<and> alike v v'"
proof -
  from p have "parse_value (length ts) ts = Some (v, [])"
    by (auto simp: parse_tokens_def split: option.splits list.splits)
  with f have "\<exists>v'. parse_value (length ts) (map (repair_string f) ts) =
      Some (v', map (repair_string f) []) \<and> alike v v'"
    by (rule parse_repaired [THEN conjunct1, rule_format])
  then show ?thesis by (auto simp: parse_tokens_def)
qed

lemma loads_substituted:
  assumes l: "lex t = Some ts"
    and p: "parse_tokens (drop_trailing_commas (insert_commas ts)) = Some v"
  shows "json_loads (trailing_commas_sub (missing_commas_sub t)) =
      parse_tokens (map (repair_string (trailing_commas_sub \<circ> missing_commas_sub))
        (drop_trailing_commas (insert_commas ts))) \<and>
    (\<exists>v'. json_loads (trailing_commas_sub (missing_commas_sub t)) = Some v' \<and> alike v v')"
proof -
  let ?m1 = "repair_string missing_commas_sub" and ?m2 = "repair_string trailing_commas_sub"
  let ?X = "drop_trailing_commas (insert_commas ts)"
  from p have "well_formed ?X" by (rule parse_tokens_well_formed)
  then have "list_all atom_clean ?X" by (rule well_formed_clean)
  then have c: "list_all atom_clean ts"
    by (simp add: atom_clean_drop_trailing_commas atom_clean_insert_commas)
  from lex_missing_commas [OF l c]
  have l1: "lex (missing_commas_sub t) = Some (map ?m1 (insert_commas ts))" .
  have c1: "list_all atom_clean (map ?m1 (insert_commas ts))"
    using c by (simp add: atom_clean_repair atom_clean_insert_commas)
  from lex_trailing_commas [OF l1 c1]
  have "lex (trailing_commas_sub (missing_commas_sub t)) =
      Some (map ?m2 (drop_trailing_commas (map ?m1 (insert_commas ts))))" .
  then have l2: "lex (trailing_commas_sub (missing_commas_sub t)) =
      Some (map (repair_string (trailing_commas_sub \<circ> missing_commas_sub)) ?X)"
    by (simp only: drop_trailing_commas_repair repair_string_comp)
  have "valid_body ((trailing_commas_sub \<circ> missing_commas_sub) b)" if "valid_body b" for b
    using that by (simp add: valid_missing_commas valid_trailing_commas)
  then have "\<exists>v'. parse_tokens
      (map (repair_string (trailing_commas_sub \<circ> missing_commas_sub)) ?X) = Some v' \<and> alike v v'"
    using p by (rule parse_tokens_repaired)
  then show ?thesis using l2 by (simp add: json_loads_def)
qed

section \<open>Tokens of a text with something after it\<close>

lemma string_end_append:
  "string_end s = Some (b, r) \<Longrightarrow> string_end (s @ x) = Some (b, r @ x)"
  using string_end_closed [of s b r] closed_string_end [of b "r @ x"] by simp

lemma string_end_none:
  assumes "string_end s = None" and "34 \<notin> set x"
  shows "string_end (s @ x) = None"
proof (rule ccontr)
  assume "string_end (s @ x) \<noteq> None"
  then obtain b r where e: "string_end (s @ x) = Some (b, r)" by auto
  from string_end_closed [OF e] have eq: "s @ x = b @ 34 # r" and cl: "closed b" by simp_all
  from eq obtain u where "(s = b @ u \<and> u @ x = 34 # r) \<or> (s @ u = b \<and> x = u @ 34 # r)"
    by (auto simp: append_eq_append_conv2)
  then have "\<exists>r'. s = b @ 34 # r'"
    using assms(2) by (cases u) auto
  then obtain r' where "s = b @ 34 # r'" by blast
  with cl have "string_end s = Some (b, r')" by (simp add: closed_string_end)
  with assms(1) show False by simp
qed

lemma space_not_quote: "list_all is_space w \<Longrightarrow> 34 \<notin> set w"
  by (auto simp: list_all_iff)

lemma structural_not_atom: "structural c \<Longrightarrow> \<not> atom_char c"
  by (simp add: atom_char_def)

lemma lex_snoc:
  assumes c: "structural c"
  shows "lex (s @ [c]) = map_option (\<lambda>ts. ts @ [structural_token c]) (lex s)"
proof (induction s rule: length_induct)
  case (1 s)
  note IH = "1.IH" [rule_format]
  show ?case
  proof (cases s)
    case Nil
    then show ?thesis using lex_structural [OF c, of "[]"] by simp
  next
    case (Cons d r)
    have q: "c \<noteq> 34" using c by (auto simp: structural_def)
    consider "json_ws d" | "\<not> json_ws d" "d = 34" | "\<not> json_ws d" "d \<noteq> 34" "structural d"
      | "\<not> json_ws d" "d \<noteq> 34" "\<not> structural d" by blast
    then show ?thesis
    proof cases
      case 1
      then show ?thesis using Cons IH [of r] by simp
    next
      case 2
      show ?thesis
      proof (cases "string_end r")
        case None
        then have "string_end (r @ [c]) = None" using q by (simp add: string_end_none)
        then show ?thesis using Cons 2 None by simp
      next
        case (Some p)
        obtain b rest where p: "p = (b, rest)" by (cases p)
        have "length rest < length s"
          using string_end_closed [of r b rest] Some p Cons by simp
        from IH [OF this] show ?thesis
          using Cons 2 Some p string_end_append [of r b rest "[c]"]
          by (simp add: option.map_comp comp_def)
      qed
    next
      case 3
      then show ?thesis using Cons IH [of r] by (simp add: option.map_comp comp_def)
    next
      case 4
      have t: "takeWhile atom_char (r @ [c]) = takeWhile atom_char r"
      proof (cases "\<forall>x \<in> set r. atom_char x")
        case True
        then have a: "takeWhile atom_char (r @ [c]) = r"
          using structural_not_atom [OF c] by (simp add: takeWhile_append)
        have b: "takeWhile atom_char r = r" using True by simp
        show ?thesis by (simp only: a b)
      next
        case False
        then obtain x where "x \<in> set r" "\<not> atom_char x" by blast
        then show ?thesis by (rule takeWhile_append1)
      qed
      have dr: "dropWhile atom_char (r @ [c]) = dropWhile atom_char r @ [c]"
        using structural_not_atom [OF c] by (simp add: dropWhile_append dropWhile_eq_Nil_conv)
      have "length (dropWhile atom_char r) < length s"
        using Cons by (simp add: length_dropWhile_le less_Suc_eq_le)
      from IH [OF this] show ?thesis
        using Cons 4 t dr by (simp add: option.map_comp comp_def)
    qed
  qed
qed

lemma lex_no_tokens: "lex s = Some [] \<Longrightarrow> list_all json_ws s"
  by (induction s) (auto split: if_splits option.splits)

lemma lex_only_spaces:
  assumes "list_all is_space w" and "lex w = Some ts" and "list_all atom_clean ts"
  shows "ts = []"
  using lex_spaces [of w "[]" ts] assms by simp

lemma lex_before_spaces:
  "lex (s @ w) = Some ts \<Longrightarrow> list_all atom_clean ts \<Longrightarrow> list_all is_space w \<Longrightarrow>
     lex s = Some ts"
proof (induction s arbitrary: ts rule: length_induct)
  case (1 s)
  note IH = "1.IH" [rule_format]
  note l = "1.prems"(1) and cl = "1.prems"(2) and w = "1.prems"(3)
  show ?case
  proof (cases s)
    case Nil
    then show ?thesis using lex_only_spaces [OF w _ cl] l by simp
  next
    case (Cons d r)
    consider "json_ws d" | "\<not> json_ws d" "d = 34" | "\<not> json_ws d" "d \<noteq> 34" "structural d"
      | "\<not> json_ws d" "d \<noteq> 34" "\<not> structural d" by blast
    then show ?thesis
    proof cases
      case 1
      then show ?thesis using Cons l cl w IH [of r ts] by simp
    next
      case 2
      have "string_end r \<noteq> None"
      proof
        assume "string_end r = None"
        then have "string_end (r @ w) = None"
          using space_not_quote [OF w] by (rule string_end_none)
        then show False using l Cons 2 by simp
      qed
      then obtain b rest where e: "string_end r = Some (b, rest)" by auto
      then have e': "string_end (r @ w) = Some (b, rest @ w)" by (rule string_end_append)
      from l Cons 2 e' obtain ts' where ts: "ts = TString b # ts'"
        and l': "lex (rest @ w) = Some ts'" by auto
      have "length rest < length s" using string_end_closed [OF e] Cons by simp
      from IH [OF this l' _ w] have "lex rest = Some ts'" using cl ts by simp
      then show ?thesis using Cons 2 e ts by simp
    next
      case 3
      from l Cons 3 obtain ts' where ts: "ts = structural_token d # ts'"
        and l': "lex (r @ w) = Some ts'" by auto
      have "lex r = Some ts'" using IH [of r ts'] l' cl ts w Cons by simp
      then show ?thesis using Cons 3 ts by simp
    next
      case 4
      from l Cons 4 obtain ts' where
        ts: "ts = TAtom (d # takeWhile atom_char (r @ w)) # ts'"
        and l': "lex (dropWhile atom_char (r @ w)) = Some ts'" by auto
      show ?thesis
      proof (cases "\<forall>x \<in> set r. atom_char x")
        case True
        then have t: "takeWhile atom_char (r @ w) = r @ takeWhile atom_char w"
          and dr: "dropWhile atom_char (r @ w) = dropWhile atom_char w"
          by (simp_all add: takeWhile_append dropWhile_append)
        have "list_all (\<lambda>c. \<not> is_space c) (takeWhile atom_char w)"
          using cl ts t by simp
        moreover have "list_all is_space (takeWhile atom_char w)"
          using w by (auto simp: list_all_iff dest: set_takeWhileD)
        ultimately have "takeWhile atom_char w = []"
          by (cases "takeWhile atom_char w") auto
        then have tw: "takeWhile atom_char (r @ w) = r" and dw: "dropWhile atom_char w = w"
          using t by (simp_all add: takeWhile_eq_Nil_iff dropWhile_eq_self_iff)
        from l' dr dw have "lex w = Some ts'" by simp
        then have "ts' = []" using lex_only_spaces [OF w] cl ts by simp
        moreover have "takeWhile atom_char r = r" "dropWhile atom_char r = []"
          using True by (simp_all add: dropWhile_eq_Nil_conv)
        ultimately show ?thesis using Cons 4 ts tw by simp
      next
        case False
        then obtain x where x: "x \<in> set r" "\<not> atom_char x" by blast
        then have t: "takeWhile atom_char (r @ w) = takeWhile atom_char r"
          by (rule takeWhile_append1)
        from x have dr: "dropWhile atom_char (r @ w) = dropWhile atom_char r @ w"
          by (rule dropWhile_append1)
        have "length (dropWhile atom_char r) < length s"
          using Cons by (simp add: length_dropWhile_le less_Suc_eq_le)
        from IH [OF this, of ts'] have "lex (dropWhile atom_char r) = Some ts'"
          using l' dr cl ts w by simp
        then show ?thesis using Cons 4 ts t by simp
      qed
    qed
  qed
qed

lemma strip_split:
  "dropWhile is_space s = strip s @ rev (takeWhile is_space (rev (dropWhile is_space s)))"
proof -
  have "rev (dropWhile is_space s) =
      takeWhile is_space (rev (dropWhile is_space s)) @ dropWhile is_space (rev (dropWhile is_space s))"
    by simp
  then have "rev (rev (dropWhile is_space s)) =
      rev (takeWhile is_space (rev (dropWhile is_space s)) @
        dropWhile is_space (rev (dropWhile is_space s)))"
    by simp
  then show ?thesis unfolding strip_def by (simp only: rev_rev_ident rev_append)
qed

lemma lex_strip:
  assumes "lex s = Some ts" and "list_all atom_clean ts"
  shows "lex (strip s) = Some ts"
proof -
  from lex_after_spaces [OF assms] have l: "lex (dropWhile is_space s) = Some ts" by simp
  let ?w = "rev (takeWhile is_space (rev (dropWhile is_space s)))"
  have w: "list_all is_space ?w" by (auto simp: list_all_iff dest: set_takeWhileD)
  from l have "lex (strip s @ ?w) = Some ts" using strip_split [of s] by simp
  from lex_before_spaces [OF this assms(2) w] show ?thesis .
qed

section \<open>The ends of a text that reads as an array or as objects\<close>

lemma parse_atom_value: "parse_atom a = Some v \<Longrightarrow> \<not> is_obj v \<and> (\<forall>vs. v \<noteq> JArr vs)"
  by (auto simp: parse_atom_def split: if_splits)

lemma parse_members_end:
  "parse_members n ts = Some (kvs, rest) \<Longrightarrow> \<exists>c. ts = c @ RBrace # rest"
proof (induction n arbitrary: ts kvs rest)
  case 0
  then show ?case by simp
next
  case (Suc n)
  note p = Suc.prems
  from p obtain key r where ts: "ts = TString key # Colon # r"
    by (auto split: list.splits token.splits)
  with p obtain k where k: "decode_string key = Some k"
    by (auto split: option.splits)
  from p ts k obtain v r1 where pv: "parse_value n r = Some (v, r1)"
    by (auto split: option.splits)
  from parse_well_formed [THEN conjunct1, rule_format, OF pv]
  obtain c where c: "r = c @ r1" by blast
  show ?case
  proof (cases r1)
    case Nil
    then show ?thesis using p ts k pv by simp
  next
    case (Cons t r2)
    show ?thesis
    proof (cases t)
      case Comma
      then obtain kvs0 where pm: "parse_members n r2 = Some (kvs0, rest)"
        using p ts k pv Cons by auto
      from Suc.IH [OF pm] obtain c' where "r2 = c' @ RBrace # rest" by blast
      then have "ts = (TString key # Colon # c @ Comma # c') @ RBrace # rest"
        using ts c Cons Comma by simp
      then show ?thesis by blast
    next
      case RBrace
      then have "ts = (TString key # Colon # c) @ RBrace # rest"
        using p ts k pv c Cons by simp
      then show ?thesis by blast
    qed (use p ts k pv Cons in auto)
  qed
qed

lemma parse_elements_end:
  "parse_elements n ts = Some (vs, rest) \<Longrightarrow> \<exists>c. ts = c @ RBracket # rest"
proof (induction n arbitrary: ts vs rest)
  case 0
  then show ?case by simp
next
  case (Suc n)
  note p = Suc.prems
  from p obtain v r where pv: "parse_value n ts = Some (v, r)"
    by (auto split: option.splits)
  from parse_well_formed [THEN conjunct1, rule_format, OF pv]
  obtain c where c: "ts = c @ r" by blast
  show ?case
  proof (cases r)
    case Nil
    then show ?thesis using p pv by simp
  next
    case (Cons t r')
    show ?thesis
    proof (cases t)
      case Comma
      then obtain vs0 where pe: "parse_elements n r' = Some (vs0, rest)"
        using p pv Cons by auto
      from Suc.IH [OF pe] obtain c' where "r' = c' @ RBracket # rest" by blast
      then have "ts = (c @ Comma # c') @ RBracket # rest" using c Cons Comma by simp
      then show ?thesis by blast
    next
      case RBracket
      then have "ts = c @ RBracket # rest" using p pv c Cons by simp
      then show ?thesis by blast
    qed (use p pv Cons in auto)
  qed
qed

lemma parse_value_object:
  assumes p: "parse_value n ts = Some (v, rest)" and o: "is_obj v"
  shows "\<exists>c. ts = LBrace # c @ RBrace # rest"
proof (cases n)
  case 0
  then show ?thesis using p by simp
next
  case (Suc m)
  show ?thesis
  proof (cases ts)
    case Nil
    then show ?thesis using p Suc by simp
  next
    case (Cons t ts')
    show ?thesis
    proof (cases t)
      case (TAtom a)
      then show ?thesis using p o Suc Cons parse_atom_value [of a v] by auto
    next
      case LBracket
      then show ?thesis using p o Suc Cons by (auto split: list.splits token.splits)
    next
      case LBrace
      show ?thesis
      proof (cases "\<exists>r. ts' = RBrace # r")
        case True
        then have "ts = LBrace # [] @ RBrace # rest" using p Suc Cons LBrace by auto
        then show ?thesis by blast
      next
        case False
        then have e: "parse_value (Suc m) ts =
            map_option (\<lambda>(kvs, r). (JObj (dict_of kvs), r))
              (parse_members m ts')"
          using Cons LBrace by (auto split: list.splits token.splits)
        from p [unfolded Suc e] obtain kvs where pm: "parse_members m ts' = Some (kvs, rest)"
          by (cases "parse_members m ts'") auto
        from parse_members_end [OF pm] show ?thesis using Cons LBrace by auto
      qed
    qed (use p o Suc Cons in auto)
  qed
qed

lemma parse_value_array:
  assumes p: "parse_value n ts = Some (JArr vs, rest)"
  shows "\<exists>c. ts = LBracket # c @ RBracket # rest"
proof (cases n)
  case 0
  then show ?thesis using p by simp
next
  case (Suc m)
  show ?thesis
  proof (cases ts)
    case Nil
    then show ?thesis using p Suc by simp
  next
    case (Cons t ts')
    show ?thesis
    proof (cases t)
      case (TAtom a)
      then show ?thesis using p Suc Cons parse_atom_value [of a "JArr vs"] by auto
    next
      case LBrace
      then show ?thesis using p Suc Cons by (auto split: list.splits token.splits)
    next
      case LBracket
      show ?thesis
      proof (cases "\<exists>r. ts' = RBracket # r")
        case True
        then have "ts = LBracket # [] @ RBracket # rest" using p Suc Cons LBracket by auto
        then show ?thesis by blast
      next
        case False
        then have e: "parse_value (Suc m) ts =
            map_option (\<lambda>(vs, r). (JArr vs, r)) (parse_elements m ts')"
          using Cons LBracket by (auto split: list.splits token.splits)
        from p [unfolded Suc e] obtain vs0 where pe: "parse_elements m ts' = Some (vs0, rest)"
          by (cases "parse_elements m ts'") auto
        from parse_elements_end [OF pe] show ?thesis using Cons LBracket by auto
      qed
    qed (use p Suc Cons in auto)
  qed
qed

lemma parse_elements_objects:
  "parse_elements n ts = Some (vs, rest) \<Longrightarrow> list_all is_obj vs \<Longrightarrow>
     \<exists>c. ts = LBrace # c @ RBrace # RBracket # rest"
proof (induction n arbitrary: ts vs rest)
  case 0
  then show ?case by simp
next
  case (Suc n)
  note p = Suc.prems(1) and o = Suc.prems(2)
  from p obtain v r where pv: "parse_value n ts = Some (v, r)"
    by (auto split: option.splits)
  show ?case
  proof (cases r)
    case Nil
    then show ?thesis using p pv by simp
  next
    case (Cons t r')
    show ?thesis
    proof (cases t)
      case Comma
      then obtain vs0 where pe: "parse_elements n r' = Some (vs0, rest)" and vs: "vs = v # vs0"
        using p pv Cons by auto
      from parse_value_object [OF pv] o vs obtain c where c: "ts = LBrace # c @ RBrace # r"
        by auto
      from Suc.IH [OF pe] o vs obtain c' where "r' = LBrace # c' @ RBrace # RBracket # rest"
        by auto
      then have "ts = LBrace # (c @ RBrace # Comma # LBrace # c') @ RBrace # RBracket # rest"
        using c Cons Comma by simp
      then show ?thesis by blast
    next
      case RBracket
      then have vs: "vs = [v]" and r': "r' = rest" using p pv Cons by auto
      from parse_value_object [OF pv] o vs obtain c where "ts = LBrace # c @ RBrace # r"
        by auto
      then show ?thesis using Cons RBracket r' by auto
    qed (use p pv Cons in auto)
  qed
qed

section \<open>The ends of a stripped text\<close>

lemma strip_ends:
  assumes "strip s \<noteq> []"
  shows "\<not> is_space (hd (strip s)) \<and> \<not> is_space (last (strip s))"
proof -
  let ?s1 = "dropWhile is_space s"
  let ?d = "dropWhile is_space (rev ?s1)"
  have d: "?d \<noteq> []" using assms by (simp add: strip_def)
  then have "\<not> is_space (hd ?d)" by (rule hd_dropWhile)
  then have l: "\<not> is_space (last (strip s))" using d by (simp add: strip_def last_rev)
  have "rev ?s1 = takeWhile is_space (rev ?s1) @ ?d" by simp
  then have "last (rev ?s1) = last ?d" using d by (metis last_appendR)
  moreover have "?s1 \<noteq> []" using d by auto
  ultimately have "hd ?s1 = last ?d" by (simp add: last_rev)
  moreover have "\<not> is_space (hd ?s1)" using \<open>?s1 \<noteq> []\<close> by (rule hd_dropWhile)
  ultimately show ?thesis using l d by (simp add: strip_def hd_rev)
qed

lemma lex_first:
  assumes "lex s = Some (t # ts)" and "s \<noteq> [] \<longrightarrow> \<not> is_space (hd s)"
  shows "s \<noteq> [] \<and> (t = LBrace \<longrightarrow> hd s = 123) \<and> (t = LBracket \<longrightarrow> hd s = 91)"
proof (cases s)
  case Nil
  then show ?thesis using assms by simp
next
  case (Cons d r)
  then have "\<not> json_ws d" using assms(2) json_ws_space by auto
  then show ?thesis using assms(1) Cons
    by (auto simp: structural_token_def structural_def split: if_splits option.splits)
qed

lemma structural_token_inj:
  "structural c \<Longrightarrow> structural d \<Longrightarrow> structural_token d = structural_token c \<Longrightarrow> d = c"
  by (auto simp: structural_def structural_token_def split: if_splits)

lemma structural_token_kind [simp]:
  "structural_token d \<noteq> TString b" "structural_token d \<noteq> TAtom a"
  "TString b \<noteq> structural_token d" "TAtom a \<noteq> structural_token d"
  by (simp_all add: structural_token_def)

lemma lex_last:
  assumes c: "structural c"
  shows "lex s = Some ts \<Longrightarrow> ts \<noteq> [] \<Longrightarrow> last ts = structural_token c \<Longrightarrow>
     \<exists>s' w. s = s' @ c # w \<and> list_all json_ws w"
proof (induction s arbitrary: ts rule: length_induct)
  case (1 s)
  note IH = "1.IH" [rule_format]
  note l = "1.prems"(1) and ne = "1.prems"(2) and la = "1.prems"(3)
  show ?case
  proof (cases s)
    case Nil
    then show ?thesis using l ne by simp
  next
    case (Cons d r)
    consider "json_ws d" | "\<not> json_ws d" "d = 34" | "\<not> json_ws d" "d \<noteq> 34" "structural d"
      | "\<not> json_ws d" "d \<noteq> 34" "\<not> structural d" by blast
    then show ?thesis
    proof cases
      case 1
      then have "lex r = Some ts" using l Cons by simp
      from IH [OF _ this ne la] obtain s' w where "r = s' @ c # w" "list_all json_ws w"
        using Cons by auto
      then have "s = (d # s') @ c # w \<and> list_all json_ws w" using Cons by simp
      then show ?thesis by blast
    next
      case 2
      from l Cons 2 obtain b rest ts' where e: "string_end r = Some (b, rest)"
        and ts: "ts = TString b # ts'" and l': "lex rest = Some ts'"
        by (auto split: option.splits)
      have r: "r = b @ 34 # rest" using string_end_closed [OF e] by simp
      have ne': "ts' \<noteq> []" using la ts by (cases ts') auto
      then have la': "last ts' = structural_token c" using la ts by simp
      have "length rest < length s" using r Cons by simp
      from IH [OF this l' ne' la'] obtain s' w where "rest = s' @ c # w" "list_all json_ws w"
        by auto
      then have "s = (d # b @ 34 # s') @ c # w \<and> list_all json_ws w" using Cons r by simp
      then show ?thesis by blast
    next
      case 3
      from l Cons 3 obtain ts' where ts: "ts = structural_token d # ts'"
        and l': "lex r = Some ts'" by auto
      show ?thesis
      proof (cases ts')
        case Nil
        then have "d = c" using la ts c 3 by (simp add: structural_token_inj)
        moreover have "list_all json_ws r" using l' Nil by (simp add: lex_no_tokens)
        ultimately have "s = [] @ c # r \<and> list_all json_ws r" using Cons by simp
        then show ?thesis by blast
      next
        case (Cons t' ts'')
        then have "ts' \<noteq> []" and "last ts' = structural_token c" using la ts by simp_all
        from IH [OF _ l' this] obtain s' w where "r = s' @ c # w" "list_all json_ws w"
          using \<open>s = d # r\<close> by auto
        then have "s = (d # s') @ c # w \<and> list_all json_ws w" using \<open>s = d # r\<close> by simp
        then show ?thesis by blast
      qed
    next
      case 4
      from l Cons 4 obtain ts' where ts: "ts = TAtom (d # takeWhile atom_char r) # ts'"
        and l': "lex (dropWhile atom_char r) = Some ts'" by auto
      have ne': "ts' \<noteq> []" using la ts by (cases ts') auto
      then have la': "last ts' = structural_token c" using la ts by simp
      have "length (dropWhile atom_char r) < length s"
        using Cons by (simp add: length_dropWhile_le less_Suc_eq_le)
      from IH [OF this l' ne' la'] obtain s' w where
        "dropWhile atom_char r = s' @ c # w" "list_all json_ws w" by auto
      then have "s = (d # takeWhile atom_char r @ s') @ c # w \<and> list_all json_ws w"
        using Cons takeWhile_dropWhile_id [of atom_char r] by simp
      then show ?thesis by blast
    qed
  qed
qed

lemma lex_last_char:
  assumes "structural c" and "lex s = Some ts" and "ts \<noteq> []"
    and "last ts = structural_token c" and "s \<noteq> [] \<longrightarrow> \<not> is_space (last s)"
  shows "s \<noteq> [] \<and> last s = c"
proof -
  from lex_last [OF assms(1-4)] obtain s' w where s: "s = s' @ c # w" and w: "list_all json_ws w"
    by blast
  have "w = []"
  proof (rule ccontr)
    assume "w \<noteq> []"
    then have "last s = last w" "last w \<in> set w" using s by simp_all
    then have "is_space (last s)" using w json_ws_space by (auto simp: list_all_iff)
    then show False using assms(5) s by simp
  qed
  then show ?thesis using s by simp
qed

section \<open>Repairing the structure of a text\<close>

lemma drop_trailing_commas_head:
  "drop_trailing_commas ts = LBracket # x \<Longrightarrow> \<exists>y. ts = LBracket # y"
  by (cases ts rule: drop_trailing_commas.cases) auto

lemma drop_trailing_commas_last:
  "ts \<noteq> [] \<Longrightarrow> drop_trailing_commas ts \<noteq> [] \<and> last (drop_trailing_commas ts) = last ts"
  by (induction ts rule: drop_trailing_commas.induct) auto

lemma lex_wrapped:
  "lex (91 # s @ [93]) = map_option (\<lambda>ts. LBracket # ts @ [RBracket]) (lex s)"
proof -
  have s: "structural 91" "structural 93" "structural_token 91 = LBracket"
    "structural_token 93 = RBracket"
    by (simp_all add: structural_def structural_token_def)
  have "lex (91 # s @ [93]) = map_option (Cons LBracket) (lex (s @ [93]))"
    using lex_structural [OF s(1), of "s @ [93]"] s(3) by simp
  also have "lex (s @ [93]) = map_option (\<lambda>ts. ts @ [RBracket]) (lex s)"
    using lex_snoc [OF s(2), of s] s(4) by simp
  finally show ?thesis by (simp add: option.map_comp comp_def)
qed

lemma suffix_single: "suffix [x] s \<longleftrightarrow> s \<noteq> [] \<and> last s = x"
  by (cases s rule: rev_cases) auto

lemma prefix_single: "prefix [x] s \<longleftrightarrow> s \<noteq> [] \<and> hd s = x"
  by (cases s) auto

lemma alike_array:
  "alike (JArr vs) v' \<Longrightarrow> \<exists>vs'. v' = JArr vs' \<and> list_all2 alike vs vs'"
  by (erule alike.cases) auto

lemma alike_object: "alike v v' \<Longrightarrow> is_obj v \<Longrightarrow> is_obj v'"
  by (erule alike.cases) auto

lemma alike_objects:
  "list_all2 alike vs vs' \<Longrightarrow> list_all is_obj vs \<Longrightarrow> list_all is_obj vs'"
  by (induction rule: list_all2_induct) (auto dest: alike_object)

lemma kept_strings_fixed:
  "list_all kept_string ts \<Longrightarrow>
     map (repair_string (trailing_commas_sub \<circ> missing_commas_sub)) ts = ts"
proof (induction ts)
  case Nil
  then show ?case by simp
next
  case (Cons t ts)
  then show ?case by (cases t) auto
qed

lemma kept_drop_trailing_commas:
  "list_all kept_string ts \<Longrightarrow> list_all kept_string (drop_trailing_commas ts)"
  by (induction ts rule: drop_trailing_commas.induct) auto

lemma fix_unbracketed:
  assumes jl: "json_loads (91 # content @ [93]) = Some (JArr vs)" and o: "list_all is_obj vs"
  shows "json_loads (fix_json_structure content) = json_loads_rewritten (91 # content @ [93]) \<and>
    (\<exists>vs'. json_loads (fix_json_structure content) = Some (JArr vs') \<and>
           list_all2 alike vs vs' \<and> length vs' = length vs \<and> list_all is_obj vs') \<and>
    (strings_kept content \<longrightarrow> json_loads (fix_json_structure content) = Some (JArr vs))"
proof -
  let ?m = "repair_string (trailing_commas_sub \<circ> missing_commas_sub)"
  from jl have "(case map_option (\<lambda>ts. LBracket # ts @ [RBracket]) (lex content) of
      None \<Rightarrow> None | Some ts \<Rightarrow> parse_tokens ts) = Some (JArr vs)"
    by (simp only: json_loads_def lex_wrapped)
  then obtain ts where lt: "lex content = Some ts"
    and pt: "parse_tokens (LBracket # ts @ [RBracket]) = Some (JArr vs)"
    by (cases "lex content") auto
  let ?X = "LBracket # ts @ [RBracket]"
  let ?s = "strip content"
  from pt have wf: "well_formed ?X" by (rule parse_tokens_well_formed)
  then have "list_all atom_clean ?X" by (rule well_formed_clean)
  then have cl: "list_all atom_clean ts" by simp
  from lex_strip [OF lt cl] have ls: "lex ?s = Some ts" .
  from pt have pv: "parse_value (Suc (Suc (length ts))) ?X = Some (JArr vs, [])"
    by (auto simp: parse_tokens_def split: option.splits list.splits)
  have ends: "ts = [] \<or> (\<exists>c. ts = LBrace # c @ [RBrace])"
  proof (cases ts)
    case Nil
    then show ?thesis by simp
  next
    case (Cons t ts')
    have "t \<noteq> RBracket" using pv Cons by auto
    then have "parse_value (Suc (Suc (length ts))) ?X =
        map_option (\<lambda>(vs, r). (JArr vs, r)) (parse_elements (Suc (length ts)) (ts @ [RBracket]))"
      using Cons by (auto split: list.splits token.splits)
    with pv have "parse_elements (Suc (length ts)) (ts @ [RBracket]) = Some (vs, [])"
      by (cases "parse_elements (Suc (length ts)) (ts @ [RBracket])") auto
    from parse_elements_objects [OF this o] obtain c where
      "ts @ [RBracket] = (LBrace # c @ [RBrace]) @ [RBracket]" by auto
    then have "ts = LBrace # c @ [RBrace]" by (simp only: append_same_eq)
    then show ?thesis by blast
  qed
  have body: "dropWhile (\<lambda>c. c = 65279) ?s = ?s \<and> \<not> prefix [91] ?s \<and> \<not> suffix [93] (91 # ?s)"
  proof (cases "ts = []")
    case True
    then have "list_all json_ws ?s" using ls by (simp add: lex_no_tokens)
    then have "?s = []"
      using strip_ends [of content] json_ws_space by (cases ?s) auto
    then show ?thesis by (simp add: suffix_single)
  next
    case False
    then obtain c where ts: "ts = LBrace # c @ [RBrace]" using ends by blast
    have e: "?s \<noteq> [] \<longrightarrow> \<not> is_space (hd ?s)" "?s \<noteq> [] \<longrightarrow> \<not> is_space (last ?s)"
      using strip_ends [of content] by simp_all
    note ls' = ls [unfolded ts]
    from lex_first [OF ls' e(1)] have h: "?s \<noteq> []" "hd ?s = 123" by simp_all
    have "structural 125" "structural_token 125 = RBrace"
      by (simp_all add: structural_def structural_token_def)
    from lex_last_char [OF this(1) ls _ _ e(2)] this(2) ts have l: "last ?s = 125" by simp
    have "dropWhile (\<lambda>c. c = 65279) ?s = ?s" using h by (cases ?s) auto
    then show ?thesis using h l by (simp add: prefix_single suffix_single)
  qed
  then have fx: "fix_json_structure content =
      trailing_commas_sub (missing_commas_sub (91 # ?s @ [93]))"
    by (simp add: fix_json_structure_def Let_def)
  have lw: "lex (91 # ?s @ [93]) = Some ?X" unfolding lex_wrapped ls by simp
  have fixed: "insert_commas ?X = ?X" "drop_trailing_commas ?X = ?X"
    using wf by (simp_all add: well_formed_def)
  then have "parse_tokens (drop_trailing_commas (insert_commas ?X)) = Some (JArr vs)"
    using pt by simp
  note sub = loads_substituted [OF lw this]
  have eq: "json_loads (fix_json_structure content) = parse_tokens (map ?m ?X)"
    using sub [THEN conjunct1] fx fixed by simp
  have ex: "\<exists>v'. json_loads (fix_json_structure content) = Some v' \<and> alike (JArr vs) v'"
    using sub [THEN conjunct2] fx by simp
  have "lex (91 # content @ [93]) = Some ?X" unfolding lex_wrapped lt by simp
  then have "json_loads_rewritten (91 # content @ [93]) = parse_tokens (map ?m ?X)"
    using fixed(2) by (simp only: json_loads_rewritten_def option.case)
  with eq have one: "json_loads (fix_json_structure content) =
      json_loads_rewritten (91 # content @ [93])" by simp
  from ex obtain v' where v': "json_loads (fix_json_structure content) = Some v'"
    and al: "alike (JArr vs) v'" by blast
  from alike_array [OF al] obtain vs' where vs': "v' = JArr vs'" "list_all2 alike vs vs'"
    by blast
  then have two: "\<exists>vs'. json_loads (fix_json_structure content) = Some (JArr vs') \<and>
      list_all2 alike vs vs' \<and> length vs' = length vs \<and> list_all is_obj vs'"
    using v' alike_objects [OF _ o] list_all2_lengthD [of alike vs vs'] by auto
  have three: "json_loads (fix_json_structure content) = Some (JArr vs)" if "strings_kept content"
  proof -
    from that lt have "list_all kept_string ?X" by (simp add: strings_kept_def)
    then have "map ?m ?X = ?X" by (rule kept_strings_fixed)
    then show ?thesis using eq pt by simp
  qed
  from one two three show ?thesis by blast
qed

lemma fix_trailing:
  assumes jl: "json_loads_lenient content = Some (JArr vs)"
  shows "json_loads (fix_json_structure content) = json_loads_rewritten content \<and>
    (\<exists>vs'. json_loads (fix_json_structure content) = Some (JArr vs') \<and>
           list_all2 alike vs vs' \<and> length vs' = length vs) \<and>
    (strings_kept content \<longrightarrow> json_loads (fix_json_structure content) = Some (JArr vs))"
proof -
  let ?m = "repair_string (trailing_commas_sub \<circ> missing_commas_sub)"
  from jl obtain ts where lt: "lex content = Some ts"
    and pt: "parse_tokens (drop_trailing_commas ts) = Some (JArr vs)"
    by (auto simp: json_loads_lenient_def split: option.splits)
  let ?s = "strip content"
  from pt have wf: "well_formed (drop_trailing_commas ts)" by (rule parse_tokens_well_formed)
  then have "list_all atom_clean (drop_trailing_commas ts)" by (rule well_formed_clean)
  then have cl: "list_all atom_clean ts" by (simp add: atom_clean_drop_trailing_commas)
  from lex_strip [OF lt cl] have ls: "lex ?s = Some ts" .
  have "insert_commas (drop_trailing_commas ts) = drop_trailing_commas ts"
    using wf by (simp add: well_formed_def)
  then have ic: "insert_commas ts = ts" by (rule insert_commas_lenient)
  from pt have "parse_value (length (drop_trailing_commas ts)) (drop_trailing_commas ts) =
      Some (JArr vs, [])"
    by (auto simp: parse_tokens_def split: option.splits list.splits)
  from parse_value_array [OF this] obtain c where
    d: "drop_trailing_commas ts = LBracket # c @ [RBracket]" by auto
  then obtain y where y: "ts = LBracket # y" using drop_trailing_commas_head by blast
  then have ne: "ts \<noteq> []" by simp
  from drop_trailing_commas_last [OF ne] d have la: "last ts = RBracket" by simp
  have e: "?s \<noteq> [] \<longrightarrow> \<not> is_space (hd ?s)" "?s \<noteq> [] \<longrightarrow> \<not> is_space (last ?s)"
    using strip_ends [of content] by simp_all
  note ls' = ls [unfolded y]
  from lex_first [OF ls' e(1)] have h: "?s \<noteq> []" "hd ?s = 91" by simp_all
  have "structural 93" "structural_token 93 = RBracket"
    by (simp_all add: structural_def structural_token_def)
  from lex_last_char [OF this(1) ls ne _ e(2)] this(2) la have l: "last ?s = 93" by simp
  have "dropWhile (\<lambda>c. c = 65279) ?s = ?s" using h by (cases ?s) auto
  then have fx: "fix_json_structure content = trailing_commas_sub (missing_commas_sub ?s)"
    using h l by (simp add: fix_json_structure_def Let_def prefix_single suffix_single)
  have "parse_tokens (drop_trailing_commas (insert_commas ts)) = Some (JArr vs)"
    using pt ic by simp
  note sub = loads_substituted [OF ls this]
  have eq: "json_loads (fix_json_structure content) =
      parse_tokens (map ?m (drop_trailing_commas ts))"
    using sub [THEN conjunct1] fx ic by simp
  have ex: "\<exists>v'. json_loads (fix_json_structure content) = Some v' \<and> alike (JArr vs) v'"
    using sub [THEN conjunct2] fx by simp
  have one: "json_loads (fix_json_structure content) = json_loads_rewritten content"
    using eq lt by (simp only: json_loads_rewritten_def option.case)
  from ex obtain v' where v': "json_loads (fix_json_structure content) = Some v'"
    and al: "alike (JArr vs) v'" by blast
  from alike_array [OF al] obtain vs' where vs': "v' = JArr vs'" "list_all2 alike vs vs'"
    by blast
  then have two: "\<exists>vs'. json_loads (fix_json_structure content) = Some (JArr vs') \<and>
      list_all2 alike vs vs' \<and> length vs' = length vs"
    using v' list_all2_lengthD [of alike vs vs'] by auto
  have three: "json_loads (fix_json_structure content) = Some (JArr vs)" if "strings_kept content"
  proof -
    from that lt have "list_all kept_string ts" by (simp add: strings_kept_def)
    then have "list_all kept_string (drop_trailing_commas ts)"
      by (rule kept_drop_trailing_commas)
    then have "map ?m (drop_trailing_commas ts) = drop_trailing_commas ts"
      by (rule kept_strings_fixed)
    then show ?thesis using eq pt by simp
  qed
  from one two three show ?thesis by blast
qed

section \<open>What the repair of the structure gives\<close>

text \<open>
  C5. What \<open>fix_json_structure\<close> gives, for every text. If the text between \<open>[\<close> and
  \<open>]\<close> reads as an array of objects (a sequence of objects with commas between them and
  no brackets around them), or if the text reads as an array once the commas before a
  closing brace or bracket are ignored, then the repaired text reads as that array after
  the two substitutions have been applied to the body of every string: an array alike the
  first but for its strings and keys, so of the same length, and of objects in the first
  case. It reads as that very array when the substitutions change no string of the text.
\<close>

theorem fix_json_structure_reads_rewritten:
  "(json_loads (str ''['' @ content @ str '']'') = Some (JArr vs) \<and> list_all is_obj vs \<longrightarrow>
      json_loads (fix_json_structure content) =
        json_loads_rewritten (str ''['' @ content @ str '']'') \<and>
      (\<exists>vs'. json_loads (fix_json_structure content) = Some (JArr vs') \<and>
             list_all2 alike vs vs' \<and> length vs' = length vs \<and> list_all is_obj vs') \<and>
      (strings_kept content \<longrightarrow> json_loads (fix_json_structure content) = Some (JArr vs))) \<and>
   (json_loads_lenient content = Some (JArr vs) \<longrightarrow>
      json_loads (fix_json_structure content) = json_loads_rewritten content \<and>
      (\<exists>vs'. json_loads (fix_json_structure content) = Some (JArr vs') \<and>
             list_all2 alike vs vs' \<and> length vs' = length vs) \<and>
      (strings_kept content \<longrightarrow> json_loads (fix_json_structure content) = Some (JArr vs)))"
proof -
  have w: "str ''['' @ content @ str '']'' = 91 # content @ [93]" by (simp add: str_def)
  show ?thesis
    unfolding w using fix_unbracketed [of content vs] fix_trailing [of content vs] by blast
qed

lemmas json_eval =
  json_loads_def json_loads_lenient_def json_ws_def structural_def atom_char_def
  structural_token_def str_def parse_tokens_def decode_string_def parse_atom_def is_number_def
  number_char_def is_digit_def int_part_ok_def fraction_ok_def exponent_ok_def unsigned_def
  digits_value_def dict_set_def dict_of_def simple_escape_def

lemma unbracketed_example_loads:
  "json_loads (str ''['' @ unbracketed_example @ str '']'') =
     Some (JArr [JObj [(str ''question'', JStr (str ''a'')), (str ''answers'', JArr [])],
                 JObj [(str ''question'', JStr (str ''b'')), (str ''answers'', JArr [])]])"
  by (simp add: unbracketed_example_def json_eval numeral_eq_Suc)

lemma unbracketed_example_kept: "strings_kept unbracketed_example"
  by (simp add: unbracketed_example_def strings_kept_def json_ws_def structural_def
      atom_char_def structural_token_def str_def is_space_def)

lemma trailing_comma_example_loads:
  "json_loads_lenient trailing_comma_example = Some (JArr [JObj [(str ''a'', JNum 1)]])"
  by (simp add: trailing_comma_example_def json_eval numeral_eq_Suc)

lemma trailing_comma_example_kept: "strings_kept trailing_comma_example"
  by (simp add: trailing_comma_example_def strings_kept_def json_ws_def structural_def
      atom_char_def structural_token_def str_def is_space_def)

lemma rewritten_string_example_loads:
  "json_loads_lenient rewritten_string_example =
     Some (JArr [JObj [(str ''b'', JStr (str ''1, ]''))]])"
  by (simp add: rewritten_string_example_def json_eval numeral_eq_Suc)

lemma rewritten_string_example_repaired:
  "fix_json_structure rewritten_string_example = str ''[{\"b\":\"1 ]\"}]''"
  by (simp add: rewritten_string_example_def fix_json_structure_def str_def strip_def
      is_space_def suffix_single)

theorem fix_json_structure_reads_rewritten_witness:
  "json_loads (fix_json_structure unbracketed_example) =
     Some (JArr [JObj [(str ''question'', JStr (str ''a'')), (str ''answers'', JArr [])],
                 JObj [(str ''question'', JStr (str ''b'')), (str ''answers'', JArr [])]]) \<and>
   json_loads (fix_json_structure trailing_comma_example) =
     Some (JArr [JObj [(str ''a'', JNum 1)]]) \<and>
   json_loads (fix_json_structure rewritten_string_example) =
     json_loads_rewritten rewritten_string_example"
proof (intro conjI)
  show "json_loads (fix_json_structure unbracketed_example) =
     Some (JArr [JObj [(str ''question'', JStr (str ''a'')), (str ''answers'', JArr [])],
                 JObj [(str ''question'', JStr (str ''b'')), (str ''answers'', JArr [])]])"
  proof (rule fix_json_structure_reads_rewritten
      [THEN conjunct1, THEN mp, THEN conjunct2, THEN conjunct2, THEN mp])
    show "json_loads (str ''['' @ unbracketed_example @ str '']'') =
        Some (JArr [JObj [(str ''question'', JStr (str ''a'')), (str ''answers'', JArr [])],
                    JObj [(str ''question'', JStr (str ''b'')), (str ''answers'', JArr [])]]) \<and>
      list_all is_obj
        [JObj [(str ''question'', JStr (str ''a'')), (str ''answers'', JArr [])],
         JObj [(str ''question'', JStr (str ''b'')), (str ''answers'', JArr [])]]"
      using unbracketed_example_loads by simp
    show "strings_kept unbracketed_example" by (rule unbracketed_example_kept)
  qed
  show "json_loads (fix_json_structure trailing_comma_example) =
     Some (JArr [JObj [(str ''a'', JNum 1)]])"
    by (rule fix_json_structure_reads_rewritten
        [THEN conjunct2, THEN mp, THEN conjunct2, THEN conjunct2, THEN mp])
      (rule trailing_comma_example_loads trailing_comma_example_kept)+
  show "json_loads (fix_json_structure rewritten_string_example) =
     json_loads_rewritten rewritten_string_example"
    by (rule fix_json_structure_reads_rewritten [THEN conjunct2, THEN mp, THEN conjunct1])
      (rule rewritten_string_example_loads)
qed

text \<open>
  C5 as stated fails: the substitutions do not tell a string from the structure around it.
  In \<open>[{"b":"1, ]"},]\<close> the comma inside the string goes with the trailing one, so the
  repaired text reads as an array whose string is \<open>1 ]\<close>, not as the array the text
  holds with its trailing comma removed.
\<close>

theorem string_with_trailing_comma_is_rewritten:
  "json_loads_lenient rewritten_string_example =
     Some (JArr [JObj [(str ''b'', JStr (str ''1, ]''))]]) \<and>
   json_loads (fix_json_structure rewritten_string_example) =
     Some (JArr [JObj [(str ''b'', JStr (str ''1 ]''))]])"
proof
  show "json_loads_lenient rewritten_string_example =
     Some (JArr [JObj [(str ''b'', JStr (str ''1, ]''))]])"
    by (rule rewritten_string_example_loads)
  show "json_loads (fix_json_structure rewritten_string_example) =
     Some (JArr [JObj [(str ''b'', JStr (str ''1 ]''))]])"
    unfolding rewritten_string_example_repaired by (simp add: json_eval numeral_eq_Suc)
qed

end
